theory Spec2Isabelle
  imports Main
begin

section \<open>The offline queue of \<^verbatim>\<open>src/utils/offlineQueue.ts\<close>\<close>

text \<open>
  The class \<^verbatim>\<open>OfflineQueueManager\<close> keeps a list of pending operations, writes it to
  one \<^verbatim>\<open>localStorage\<close> slot and delivers it to the harvest service while the browser
  is online. The embedding follows the source method by method.

  \<^item> Values of type \<^verbatim>\<open>any\<close> (the payload \<^verbatim>\<open>data\<close>) are JSON-like trees.
  \<^item> The queue has its declared type \<^verbatim>\<open>QueuedOperation[]\<close>; \<^verbatim>\<open>retryCount\<close> is an
    integer and the clock a natural number of milliseconds.
  \<^item> The browser and the remote service are the environment: \<^verbatim>\<open>JSON.stringify\<close>,
    \<^verbatim>\<open>JSON.parse\<close> and the failures of \<^verbatim>\<open>localStorage\<close> are fields of a record
    \<open>platform\<close>; the calls issued to the service are recorded in a trace, and the
    outcome of each call is supplied from outside when its promise settles.
  \<^item> An exception is a value \<open>Inl e\<close>; every \<^verbatim>\<open>try/catch\<close> of the source is a case
    distinction on it.
  \<^item> \<^verbatim>\<open>syncQueue\<close> is asynchronous: it is embedded as the code that runs up to the
    next \<^verbatim>\<open>await\<close> of a service call, with the suspended loop kept in the state.
  \<^item> \<^verbatim>\<open>console\<close> output is a list of lines in the state.
\<close>

subsection \<open>Data\<close>

datatype jsval =
    JUndefined
  | JNull
  | JBool bool
  | JNumber int
  | JString string
  | JArray "jsval list"
  | JObject "(string \<times> jsval) list"

text \<open>
  The field \<^verbatim>\<open>type\<close> is declared \<^verbatim>\<open>'CREATE' | 'UPDATE' | 'DELETE'\<close>. \<open>OTHER\<close> stands for a
  string outside that union, which only a persisted queue can hold and which the
  \<^verbatim>\<open>default\<close> branch of \<^verbatim>\<open>executeOperation\<close> handles.
\<close>

datatype operation_type = CREATE | UPDATE | DELETE | OTHER string

record QueuedOperation =
  op_id :: string
  op_type :: operation_type
  data :: jsval
  timestamp :: nat
  retryCount :: int

datatype error =
    TypeError
  | UnknownOperationType string
  | ServiceError
  | SyntaxError
  | QuotaExceededError
  | SecurityError

text \<open>The calls of \<^verbatim>\<open>harvestService\<close> that the queue issues, with their arguments.\<close>

datatype service_call =
    CreateHarvest jsval
  | UpdateHarvest jsval jsval
  | DeleteHarvest jsval

text \<open>The lines written to the console, one constructor per message of the source.\<close>

datatype log_line =
    ConnectionRestored
  | ConnectionLost
  | ErrorLoading error
  | ErrorSaving error
  | QueuedLine operation_type QueuedOperation
  | SyncingLine nat
  | SyncedOperation string
  | FailedToSync string error
  | MaxRetriesReached string
  | SyncedCount nat

text \<open>
  The built-ins the class relies on. \<open>JSON_stringify\<close> is total (the payloads are
  finite trees); \<open>JSON_parse\<close> returns \<open>Inl SyntaxError\<close> on text that does not parse;
  \<open>setItem_throws k v\<close> says that writing \<open>v\<close> under key \<open>k\<close> is refused (quota exceeded,
  storage disabled); \<open>getItem_throws\<close> that reading is refused.
\<close>

record platform =
  JSON_stringify :: "QueuedOperation list \<Rightarrow> string"
  JSON_parse :: "string \<Rightarrow> error + QueuedOperation list"
  getItem_throws :: bool
  setItem_throws :: "string \<Rightarrow> string \<Rightarrow> bool"

text \<open>
  The fields of the class (\<open>queue\<close>, \<open>isOnline\<close>, \<open>syncInProgress\<close>) and the world around
  it. \<open>awaiting = Some (i, acc)\<close> is a pass of \<^verbatim>\<open>syncQueue\<close> suspended at its
  \<^verbatim>\<open>await\<close>: the delivery of the operation at index \<open>i\<close> of the queue is in flight and
  \<open>acc\<close> is the local array \<^verbatim>\<open>successfulOperations\<close>. While a pass is suspended the
  array \<^verbatim>\<open>this.queue\<close> is only pushed to, so the index identifies the operation that the
  loop variable holds.
\<close>

record manager =
  queue :: "QueuedOperation list"
  isOnline :: bool
  syncInProgress :: bool
  localStorage :: "string \<rightharpoonup> string"
  awaiting :: "(nat \<times> string list) option"
  calls :: "service_call list"
  console :: "log_line list"

definition STORAGE_KEY :: string where
  "STORAGE_KEY = ''farmer_app_offline_queue''"

definition MAX_RETRIES :: int where
  "MAX_RETRIES = 3"

subsection \<open>Storage\<close>

definition getItem :: "platform \<Rightarrow> string \<Rightarrow> (string \<rightharpoonup> string) \<Rightarrow> error + string option" where
  "getItem pf k ls = (if getItem_throws pf then Inl SecurityError else Inr (ls k))"

definition setItem ::
  "platform \<Rightarrow> string \<Rightarrow> string \<Rightarrow> (string \<rightharpoonup> string) \<Rightarrow> error + (string \<rightharpoonup> string)" where
  "setItem pf k v ls = (if setItem_throws pf k v then Inl QuotaExceededError else Inr (ls(k \<mapsto> v)))"

text \<open>
  \<^verbatim>\<open>loadQueue\<close>: a missing slot and the empty string are falsy and leave the queue as it
  is; an exception of \<^verbatim>\<open>getItem\<close> or \<^verbatim>\<open>JSON.parse\<close> is logged and empties the queue.
\<close>

definition loadQueue :: "platform \<Rightarrow> manager \<Rightarrow> manager" where
  "loadQueue pf s =
     (case getItem pf STORAGE_KEY (localStorage s) of
        Inl e \<Rightarrow> s\<lparr>queue := [], console := console s @ [ErrorLoading e]\<rparr>
      | Inr None \<Rightarrow> s
      | Inr (Some saved) \<Rightarrow>
          if saved = [] then s
          else (case JSON_parse pf saved of
                  Inl e \<Rightarrow> s\<lparr>queue := [], console := console s @ [ErrorLoading e]\<rparr>
                | Inr q \<Rightarrow> s\<lparr>queue := q\<rparr>))"

definition saveQueue :: "platform \<Rightarrow> manager \<Rightarrow> manager" where
  "saveQueue pf s =
     (case setItem pf STORAGE_KEY (JSON_stringify pf (queue s)) (localStorage s) of
        Inl e \<Rightarrow> s\<lparr>console := console s @ [ErrorSaving e]\<rparr>
      | Inr ls \<Rightarrow> s\<lparr>localStorage := ls\<rparr>)"

subsection \<open>Identifiers\<close>

text \<open>Decimal notation of \<^verbatim>\<open>Date.now()\<close>, as the template string prints it.\<close>

fun decimal :: "nat \<Rightarrow> string" where
  "decimal n =
     (if n < 10 then [''0123456789'' ! n]
      else decimal (n div 10) @ [''0123456789'' ! (n mod 10)])"

declare decimal.simps [simp del]

text \<open>
  \<^verbatim>\<open>generateId\<close>: \<open>now\<close> is \<^verbatim>\<open>Date.now()\<close> and \<open>rnd\<close> is the text
  \<^verbatim>\<open>Math.random().toString(36)\<close>; \<^verbatim>\<open>substr(2, 9)\<close> keeps at most nine characters from
  index two.
\<close>

definition generateId :: "nat \<Rightarrow> string \<Rightarrow> string" where
  "generateId now rnd = ''offline_'' @ decimal now @ ''_'' @ take 9 (drop 2 rnd)"

subsection \<open>Delivery\<close>

text \<open>
  Reading a property: \<^verbatim>\<open>undefined\<close> and \<^verbatim>\<open>null\<close> throw a \<^verbatim>\<open>TypeError\<close>, an object
  yields the value of the key or \<^verbatim>\<open>undefined\<close>, a primitive or an array yields
  \<^verbatim>\<open>undefined\<close> for the two keys read here (\<^verbatim>\<open>id\<close> and \<^verbatim>\<open>updates\<close>).
\<close>

fun get_prop :: "jsval \<Rightarrow> string \<Rightarrow> error + jsval" where
  "get_prop JUndefined k = Inl TypeError"
| "get_prop JNull k = Inl TypeError"
| "get_prop (JObject kvs) k = Inr (case map_of kvs k of None \<Rightarrow> JUndefined | Some v \<Rightarrow> v)"
| "get_prop (JBool v) k = Inr JUndefined"
| "get_prop (JNumber v) k = Inr JUndefined"
| "get_prop (JString v) k = Inr JUndefined"
| "get_prop (JArray vs) k = Inr JUndefined"

text \<open>
  \<^verbatim>\<open>executeOperation\<close> up to its \<^verbatim>\<open>await\<close>: the service call it issues, or the exception
  it throws before any call is made.
\<close>

definition executeOperation :: "QueuedOperation \<Rightarrow> error + service_call" where
  "executeOperation operation =
     (case op_type operation of
        CREATE \<Rightarrow> Inr (CreateHarvest (data operation))
      | UPDATE \<Rightarrow>
          (case get_prop (data operation) ''id'' of
             Inl e \<Rightarrow> Inl e
           | Inr i \<Rightarrow>
               (case get_prop (data operation) ''updates'' of
                  Inl e \<Rightarrow> Inl e
                | Inr u \<Rightarrow> Inr (UpdateHarvest i u)))
      | DELETE \<Rightarrow>
          (case get_prop (data operation) ''id'' of
             Inl e \<Rightarrow> Inl e
           | Inr i \<Rightarrow> Inr (DeleteHarvest i))
      | OTHER t \<Rightarrow> Inl (UnknownOperationType t))"

subsection \<open>The pass of \<^verbatim>\<open>syncQueue\<close>\<close>

text \<open>
  The \<^verbatim>\<open>catch\<close> block of the loop, for the operation at index \<open>i\<close>: log, increment
  \<^verbatim>\<open>retryCount\<close> in place, and mark the operation once the count reaches the cap.
\<close>

definition on_failure :: "error \<Rightarrow> nat \<Rightarrow> string list \<Rightarrow> manager \<Rightarrow> manager \<times> string list" where
  "on_failure e i successfulOperations s =
     (let operation = queue s ! i;
          s1 = s\<lparr>console := console s @ [FailedToSync (op_id operation) e]\<rparr>;
          operation' = operation\<lparr>retryCount := retryCount operation + 1\<rparr>;
          s2 = s1\<lparr>queue := (queue s1)[i := operation']\<rparr>
      in if retryCount operation' \<ge> MAX_RETRIES
         then (s2\<lparr>console := console s2 @ [MaxRetriesReached (op_id operation')]\<rparr>,
               successfulOperations @ [op_id operation'])
         else (s2, successfulOperations))"

text \<open>The \<^verbatim>\<open>try\<close> block after a delivery that succeeded.\<close>

definition on_success :: "nat \<Rightarrow> string list \<Rightarrow> manager \<Rightarrow> manager \<times> string list" where
  "on_success i successfulOperations s =
     (let operation = queue s ! i
      in (s\<lparr>console := console s @ [SyncedOperation (op_id operation)]\<rparr>,
          successfulOperations @ [op_id operation]))"

text \<open>The statements after the loop.\<close>

definition finish :: "platform \<Rightarrow> string list \<Rightarrow> manager \<Rightarrow> manager" where
  "finish pf successfulOperations s =
     (let s1 = s\<lparr>queue := filter (\<lambda>op. op_id op \<notin> set successfulOperations) (queue s)\<rparr>;
          s2 = saveQueue pf s1;
          s3 = s2\<lparr>syncInProgress := False, awaiting := None\<rparr>
      in if length successfulOperations > 0
         then s3\<lparr>console := console s3 @ [SyncedCount (length successfulOperations)]\<rparr>
         else s3)"

text \<open>
  The loop from index \<open>i\<close> on, run until a service call is issued and awaited or the
  array is exhausted. The array iterator reads the length of the live array at each
  step, so operations pushed while a delivery is awaited are visited by the same pass.
  An operation whose \<^verbatim>\<open>executeOperation\<close> throws before calling the service goes
  through the \<^verbatim>\<open>catch\<close> block at once.
\<close>

function sync_from :: "platform \<Rightarrow> nat \<Rightarrow> string list \<Rightarrow> manager \<Rightarrow> manager" where
  "sync_from pf i successfulOperations s =
     (if i < length (queue s) then
        (case executeOperation (queue s ! i) of
           Inr c \<Rightarrow> s\<lparr>calls := calls s @ [c], awaiting := Some (i, successfulOperations)\<rparr>
         | Inl e \<Rightarrow>
             (case on_failure e i successfulOperations s of
                (s', successfulOperations') \<Rightarrow> sync_from pf (i + 1) successfulOperations' s'))
      else finish pf successfulOperations s)"
  by pat_completeness auto
termination
proof (relation "measure (\<lambda>(pf, i, acc, s). length (queue s) - i)")
  show "wf (measure (\<lambda>(pf, i, acc, s). length (queue s) - i))"
    by simp
next
  fix pf :: platform and i :: nat and successfulOperations :: "string list" and s :: manager
    and e x s' successfulOperations'
  assume "i < length (queue s)" and "(s', successfulOperations') = on_failure e i successfulOperations s"
  then show "((pf, i + 1, successfulOperations', s'), (pf, i, successfulOperations, s))
      \<in> measure (\<lambda>(pf, i, acc, s). length (queue s) - i)"
    by (auto simp: on_failure_def Let_def split: if_splits)
qed

declare sync_from.simps [simp del]

text \<open>
  \<^verbatim>\<open>syncQueue\<close> up to its first \<^verbatim>\<open>await\<close> (or to its end, when no service call is
  issued).
\<close>

definition syncQueue :: "platform \<Rightarrow> manager \<Rightarrow> manager" where
  "syncQueue pf s =
     (if \<not> isOnline s \<or> syncInProgress s \<or> length (queue s) = 0 then s
      else sync_from pf 0 []
             (s\<lparr>syncInProgress := True,
                console := console s @ [SyncingLine (length (queue s))]\<rparr>))"

text \<open>
  The awaited promise settles: \<open>ok\<close> for fulfilled, otherwise rejected. The pass resumes
  in the \<^verbatim>\<open>try\<close> or the \<^verbatim>\<open>catch\<close> block and runs on to its next \<^verbatim>\<open>await\<close>. Nothing
  happens when no pass is suspended.
\<close>

definition settle :: "platform \<Rightarrow> bool \<Rightarrow> manager \<Rightarrow> manager" where
  "settle pf ok s =
     (case awaiting s of
        None \<Rightarrow> s
      | Some (i, successfulOperations) \<Rightarrow>
          (case (if ok then on_success i successfulOperations s
                 else on_failure ServiceError i successfulOperations s) of
             (s', successfulOperations') \<Rightarrow> sync_from pf (i + 1) successfulOperations' s'))"

subsection \<open>The public methods, the event listeners and the constructor\<close>

text \<open>
  \<^verbatim>\<open>queueOperation\<close>: \<open>now\<close> and \<open>now'\<close> are the two readings of \<^verbatim>\<open>Date.now()\<close> (for the
  identifier and for \<^verbatim>\<open>timestamp\<close>) and \<open>rnd\<close> is the random text. \<open>new_operation\<close> is
  the object it builds. The call of \<^verbatim>\<open>syncQueue\<close> is not awaited: the result is the
  state in which that pass is suspended (or over).
\<close>

definition new_operation :: "nat \<Rightarrow> string \<Rightarrow> nat \<Rightarrow> operation_type \<Rightarrow> jsval \<Rightarrow> QueuedOperation" where
  "new_operation now rnd now' ty dat =
     \<lparr>op_id = generateId now rnd, op_type = ty, data = dat, timestamp = now', retryCount = 0\<rparr>"

definition queueOperation ::
  "platform \<Rightarrow> nat \<Rightarrow> string \<Rightarrow> nat \<Rightarrow> operation_type \<Rightarrow> jsval \<Rightarrow> manager \<Rightarrow> string \<times> manager" where
  "queueOperation pf now rnd now' ty d s =
     (let operation = \<lparr>op_id = generateId now rnd, op_type = ty, data = d,
                       timestamp = now', retryCount = 0\<rparr>;
          s1 = s\<lparr>queue := queue s @ [operation]\<rparr>;
          s2 = saveQueue pf s1;
          s3 = s2\<lparr>console := console s2 @ [QueuedLine ty operation]\<rparr>;
          s4 = (if isOnline s3 \<and> \<not> syncInProgress s3 then syncQueue pf s3 else s3)
      in (op_id operation, s4))"

definition queueHarvest :: "platform \<Rightarrow> nat \<Rightarrow> string \<Rightarrow> nat \<Rightarrow> jsval \<Rightarrow> manager \<Rightarrow> string \<times> manager" where
  "queueHarvest pf now rnd now' harvest s = queueOperation pf now rnd now' CREATE harvest s"

text \<open>
  The listeners registered by \<^verbatim>\<open>setupEventListeners\<close> for the events \<^verbatim>\<open>online\<close> and
  \<^verbatim>\<open>offline\<close>.
\<close>

definition on_online :: "platform \<Rightarrow> manager \<Rightarrow> manager" where
  "on_online pf s = syncQueue pf (s\<lparr>console := console s @ [ConnectionRestored], isOnline := True\<rparr>)"

definition on_offline :: "manager \<Rightarrow> manager" where
  "on_offline s = s\<lparr>console := console s @ [ConnectionLost], isOnline := False\<rparr>"

definition getQueueStatus :: "manager \<Rightarrow> bool \<times> nat \<times> bool" where
  "getQueueStatus s = (isOnline s, length (queue s), syncInProgress s)"

definition clearQueue :: "platform \<Rightarrow> manager \<Rightarrow> manager" where
  "clearQueue pf s = saveQueue pf (s\<lparr>queue := []\<rparr>)"

text \<open>
  The constructor: the field initialisers, \<^verbatim>\<open>loadQueue\<close>, and a first pass when the
  browser reports to be online. \<open>onLine\<close> is \<^verbatim>\<open>navigator.onLine\<close> and \<open>ls\<close> the content
  of \<^verbatim>\<open>localStorage\<close> at start-up.
\<close>

definition initial :: "bool \<Rightarrow> (string \<rightharpoonup> string) \<Rightarrow> manager" where
  "initial onLine ls =
     \<lparr>queue = [], isOnline = onLine, syncInProgress = False, localStorage = ls,
      awaiting = None, calls = [], console = []\<rparr>"

definition new_manager :: "platform \<Rightarrow> bool \<Rightarrow> (string \<rightharpoonup> string) \<Rightarrow> manager" where
  "new_manager pf onLine ls =
     (let s1 = loadQueue pf (initial onLine ls)
      in if isOnline s1 then syncQueue pf s1 else s1)"

text \<open>
  The queue that a restart would read from the storage of state \<open>s\<close>: the result of
  \<^verbatim>\<open>loadQueue\<close> in a fresh instance over the same \<^verbatim>\<open>localStorage\<close>.
\<close>

definition persisted_queue :: "platform \<Rightarrow> manager \<Rightarrow> QueuedOperation list" where
  "persisted_queue pf s = queue (loadQueue pf (initial False (localStorage s)))"

subsection \<open>Running a pass to its end\<close>

text \<open>
  \<open>complete_pass\<close> lets a suspended pass run to its end with no other event in between:
  the delivery awaited for the operation \<open>op\<close> at index \<open>i\<close> is fulfilled when \<open>d i op\<close>
  holds and rejected otherwise. \<open>d\<close> is the behaviour of the remote service during this
  pass. The function is total: a pass whose deliveries all settle comes to its end.
\<close>

function complete_pass :: "platform \<Rightarrow> (nat \<Rightarrow> QueuedOperation \<Rightarrow> bool) \<Rightarrow> manager \<Rightarrow> manager" where
  "complete_pass pf d s =
     (case awaiting s of
        None \<Rightarrow> s
      | Some (i, successfulOperations) \<Rightarrow>
          if i < length (queue s) then complete_pass pf d (settle pf (d i (queue s ! i)) s) else s)"
  by pat_completeness auto
termination
proof (relation "measure (\<lambda>(pf, d, s). case awaiting s of None \<Rightarrow> 0 | Some (i, acc) \<Rightarrow> length (queue s) - i)")
  show "wf (measure (\<lambda>(pf, d, s). case awaiting s of None \<Rightarrow> 0 | Some (i, acc) \<Rightarrow> length (queue s) - i))"
    by simp
next
  fix pf :: platform and d :: "nat \<Rightarrow> QueuedOperation \<Rightarrow> bool" and s :: manager and x i acc
  assume a: "awaiting s = Some x" "(i, acc) = x" "i < length (queue s)"
  have suspended: "awaiting (sync_from p k b t) = Some (j, b') \<Longrightarrow>
      k \<le> j \<and> j < length (queue t) \<and> length (queue (sync_from p k b t)) = length (queue t)"
    for p k b t j b'
  proof (induction p k b t rule: sync_from.induct)
    case (1 p k b t)
    show ?case
    proof (cases "k < length (queue t)")
      case False
      with "1.prems" show ?thesis
        by (simp add: sync_from.simps[of p k b t] finish_def saveQueue_def Let_def
            split: sum.splits if_splits)
    next
      case True
      show ?thesis
      proof (cases "executeOperation (queue t ! k)")
        case (Inr c)
        have eq: "sync_from p k b t = t\<lparr>awaiting := Some (k, b), calls := calls t @ [c]\<rparr>"
          using True Inr by (simp add: sync_from.simps[of p k b t])
        from "1.prems" True show ?thesis
          unfolding eq by simp
      next
        case (Inl e)
        obtain t' b1 where f: "on_failure e k b t = (t', b1)"
          by (cases "on_failure e k b t")
        have len: "length (queue t') = length (queue t)"
          using f by (auto simp: on_failure_def Let_def split: if_splits)
        have eq: "sync_from p k b t = sync_from p (k + 1) b1 t'"
          using True Inl f by (simp add: sync_from.simps[of p k b t])
        from "1.IH"[OF True Inl f[symmetric]] "1.prems" eq len show ?thesis
          by simp
      qed
    qed
  qed
  let ?r = "settle pf (d i (queue s ! i)) s"
  obtain s' acc1 where st: "?r = sync_from pf (i + 1) acc1 s'" "length (queue s') = length (queue s)"
    using a unfolding settle_def
    by (cases "d i (queue s ! i)") (auto simp: split_beta on_failure_def on_success_def Let_def)
  have "(case awaiting ?r of None \<Rightarrow> 0 | Some (j, acc) \<Rightarrow> length (queue ?r) - j) < length (queue s) - i"
  proof (cases "awaiting ?r")
    case None
    with a show ?thesis by simp
  next
    case (Some y)
    obtain j acc2 where y: "y = (j, acc2)" by (cases y)
    from suspended[of pf "i + 1" acc1 s' j acc2] Some y st a show ?thesis
      by simp arith
  qed
  with a show "((pf, d, settle pf (d i (queue s ! i)) s), (pf, d, s))
      \<in> measure (\<lambda>(pf, d, s). case awaiting s of None \<Rightarrow> 0 | Some (i, acc) \<Rightarrow> length (queue s) - i)"
    by auto
qed

declare complete_pass.simps [simp del]

text \<open>
  \<open>full_sync\<close> is a call of \<^verbatim>\<open>syncQueue\<close> together with the settling of all its
  deliveries; \<open>passes\<close> are several such calls in a row, with the service behaving as
  \<open>ds\<close>.
\<close>

definition full_sync :: "platform \<Rightarrow> (nat \<Rightarrow> QueuedOperation \<Rightarrow> bool) \<Rightarrow> manager \<Rightarrow> manager" where
  "full_sync pf d s = complete_pass pf d (syncQueue pf s)"


subsection \<open>Events\<close>

text \<open>
  One event of the life of the manager: a call of \<^verbatim>\<open>queueOperation\<close> (with the two
  readings of the clock and the random text it consumes), the two connectivity events of
  the browser, and the settling of the delivery that a pass awaits. Each handler runs to
  its next \<^verbatim>\<open>await\<close> of a service call before the next event is taken.
  \<^verbatim>\<open>clearQueue\<close> ("for testing/debugging") is not among the events.
\<close>

datatype event =
    Enqueue nat string nat operation_type jsval
  | Online
  | Offline
  | Settled bool

fun step :: "platform \<Rightarrow> event \<Rightarrow> manager \<Rightarrow> manager" where
  "step pf (Enqueue now rnd now' ty d) s = snd (queueOperation pf now rnd now' ty d s)"
| "step pf Online s = on_online pf s"
| "step pf Offline s = on_offline s"
| "step pf (Settled ok) s = settle pf ok s"

definition run :: "platform \<Rightarrow> event list \<Rightarrow> manager \<Rightarrow> manager" where
  "run pf es s = foldl (\<lambda>s e. step pf e s) s es"

text \<open>
  A sequence of calls of \<^verbatim>\<open>queueOperation\<close>, given by their arguments, as events and as
  the operations they build.
\<close>

fun enqueue_event :: "nat \<times> string \<times> nat \<times> operation_type \<times> jsval \<Rightarrow> event" where
  "enqueue_event (now, rnd, now', ty, dat) = Enqueue now rnd now' ty dat"

fun enqueue_operation :: "nat \<times> string \<times> nat \<times> operation_type \<times> jsval \<Rightarrow> QueuedOperation" where
  "enqueue_operation (now, rnd, now', ty, dat) = new_operation now rnd now' ty dat"

text \<open>
  \<open>fresh_run pf es s\<close>: along the events \<open>es\<close> from state \<open>s\<close>, every call of
  \<^verbatim>\<open>queueOperation\<close> generates an identifier that no queued operation has at that
  moment.
\<close>

fun fresh_run :: "platform \<Rightarrow> event list \<Rightarrow> manager \<Rightarrow> bool" where
  "fresh_run pf [] s = True"
| "fresh_run pf (e # es) s =
     ((case e of Enqueue now rnd now' ty dat \<Rightarrow> generateId now rnd \<notin> op_id ` set (queue s)
               | _ \<Rightarrow> True)
      \<and> fresh_run pf es (step pf e s))"

subsection \<open>Notions used by the properties\<close>

text \<open>
  The outcome of a pass over a queue \<open>q\<close>, operation by operation: \<open>delivered d (i, op)\<close>
  says that the \<^verbatim>\<open>try\<close> block for the operation at index \<open>i\<close> completes (the service is
  called and the call is fulfilled), \<open>attempt\<close> is the operation as the loop leaves it in
  the array, \<open>marked\<close> says that its \<open>id\<close> is pushed to \<^verbatim>\<open>successfulOperations\<close>, \<open>issued\<close>
  is the service call it causes and \<open>attempt_lines\<close> are its console lines.
  \<open>attempted d q\<close> is the array at the end of the loop and \<open>marked_ids d q\<close> the array
  \<^verbatim>\<open>successfulOperations\<close> at that point (lemma \<open>full_sync_closed\<close> below proves that the
  embedded loop computes them).
\<close>

definition delivered :: "(nat \<Rightarrow> QueuedOperation \<Rightarrow> bool) \<Rightarrow> nat \<times> QueuedOperation \<Rightarrow> bool" where
  "delivered d p = (case executeOperation (snd p) of Inl e \<Rightarrow> False | Inr c \<Rightarrow> d (fst p) (snd p))"

definition attempt :: "(nat \<Rightarrow> QueuedOperation \<Rightarrow> bool) \<Rightarrow> nat \<times> QueuedOperation \<Rightarrow> QueuedOperation" where
  "attempt d p = (if delivered d p then snd p else (snd p)\<lparr>retryCount := retryCount (snd p) + 1\<rparr>)"

definition marked :: "(nat \<Rightarrow> QueuedOperation \<Rightarrow> bool) \<Rightarrow> nat \<times> QueuedOperation \<Rightarrow> bool" where
  "marked d p = (delivered d p \<or> retryCount (snd p) + 1 \<ge> MAX_RETRIES)"

definition issued :: "QueuedOperation \<Rightarrow> service_call list" where
  "issued operation = (case executeOperation operation of Inl e \<Rightarrow> [] | Inr c \<Rightarrow> [c])"

definition attempt_lines :: "(nat \<Rightarrow> QueuedOperation \<Rightarrow> bool) \<Rightarrow> nat \<times> QueuedOperation \<Rightarrow> log_line list" where
  "attempt_lines d p =
     (if delivered d p then [SyncedOperation (op_id (snd p))]
      else FailedToSync (op_id (snd p))
             (case executeOperation (snd p) of Inl e \<Rightarrow> e | Inr c \<Rightarrow> ServiceError)
           # (if retryCount (snd p) + 1 \<ge> MAX_RETRIES then [MaxRetriesReached (op_id (snd p))] else []))"

definition marked_ids :: "(nat \<Rightarrow> QueuedOperation \<Rightarrow> bool) \<Rightarrow> QueuedOperation list \<Rightarrow> string list" where
  "marked_ids d q = map (op_id \<circ> snd) (filter (marked d) (enumerate 0 q))"

definition attempted :: "(nat \<Rightarrow> QueuedOperation \<Rightarrow> bool) \<Rightarrow> QueuedOperation list \<Rightarrow> QueuedOperation list" where
  "attempted d q = map (attempt d) (enumerate 0 q)"

text \<open>
  The identifiers of the operations whose delivery the console reports as attempted
  (one line per attempt: synced or failed), and the console line that opens a pass.
\<close>

fun attempt_of :: "log_line \<Rightarrow> string list" where
  "attempt_of (SyncedOperation i) = [i]"
| "attempt_of (FailedToSync i e) = [i]"
| "attempt_of other = []"

definition attempts_logged :: "log_line list \<Rightarrow> string list" where
  "attempts_logged ls = concat (map attempt_of ls)"

definition is_syncing_line :: "log_line \<Rightarrow> bool" where
  "is_syncing_line l = (case l of SyncingLine n \<Rightarrow> True | _ \<Rightarrow> False)"

text \<open>
  \<open>storage_works pf q\<close>: on platform \<open>pf\<close> the text of the queue \<open>q\<close> can be written, is
  not the empty string and parses back to \<open>q\<close>.
\<close>

definition storage_works :: "platform \<Rightarrow> QueuedOperation list \<Rightarrow> bool" where
  "storage_works pf q \<longleftrightarrow>
     \<not> getItem_throws pf \<and> \<not> setItem_throws pf STORAGE_KEY (JSON_stringify pf q)
     \<and> JSON_stringify pf q \<noteq> [] \<and> JSON_parse pf (JSON_stringify pf q) = Inr q"

text \<open>
  The invariant of a pass in flight. \<open>processed i acc q\<close>: every operation before index
  \<open>i\<close> is marked in \<open>acc\<close> or has a retry count below the cap. \<open>pass_invariant\<close>: the flag
  \<^verbatim>\<open>syncInProgress\<close> is set exactly while a pass is suspended, the awaited index is in
  range and the operations before it are processed. \<open>pass_ends pf e s\<close>: a pass that is in
  progress in \<open>s\<close>, or that event \<open>e\<close> starts, has run to its end when \<open>e\<close> has been
  handled.
\<close>

definition processed :: "nat \<Rightarrow> string list \<Rightarrow> QueuedOperation list \<Rightarrow> bool" where
  "processed i acc q \<longleftrightarrow>
     (\<forall>j < i. op_id (q ! j) \<in> set acc \<or> retryCount (q ! j) < MAX_RETRIES)"

definition pass_invariant :: "manager \<Rightarrow> bool" where
  "pass_invariant s =
     (case awaiting s of
        None \<Rightarrow> \<not> syncInProgress s
      | Some (i, acc) \<Rightarrow> syncInProgress s \<and> i < length (queue s) \<and> processed i acc (queue s))"

definition enters_pass :: "event \<Rightarrow> manager \<Rightarrow> bool" where
  "enters_pass e s =
     (case e of
        Online \<Rightarrow> \<not> syncInProgress s \<and> queue s \<noteq> []
      | Enqueue now rnd now' ty dat \<Rightarrow> isOnline s \<and> \<not> syncInProgress s
      | _ \<Rightarrow> False)"

definition pass_ends :: "platform \<Rightarrow> event \<Rightarrow> manager \<Rightarrow> bool" where
  "pass_ends pf e s \<longleftrightarrow> (syncInProgress s \<or> enters_pass e s) \<and> \<not> syncInProgress (step pf e s)"

definition below_cap :: "manager \<Rightarrow> bool" where
  "below_cap s \<longleftrightarrow> (\<forall>op \<in> set (queue s). retryCount op < MAX_RETRIES)"

subsection \<open>Example data\<close>

text \<open>
  Two harvest records, two queued operations and a platform on which storage works.
  The example platform prints a queue as the list of its identifiers and retry counts
  and parses back the texts of the example queues.
\<close>

definition harvest_A :: jsval where
  "harvest_A = JObject [(''cropName'', JString ''Corn''), (''quantity'', JNumber 12), (''unit'', JString ''kg'')]"

definition harvest_B :: jsval where
  "harvest_B = JObject [(''cropName'', JString ''Rice''), (''quantity'', JNumber 7), (''unit'', JString ''kg'')]"

definition op_A :: QueuedOperation where
  "op_A = \<lparr>op_id = ''offline_1000_abc'', op_type = CREATE, data = harvest_A,
           timestamp = 1000, retryCount = 0\<rparr>"

definition op_B :: QueuedOperation where
  "op_B = \<lparr>op_id = ''offline_2000_xyz'', op_type = CREATE, data = harvest_B,
           timestamp = 2000, retryCount = 0\<rparr>"

definition example_stringify :: "QueuedOperation list \<Rightarrow> string" where
  "example_stringify q =
     ''['' @ concat (map (\<lambda>op. op_id op @ '':'' @ decimal (nat (retryCount op)) @ '';'') q) @ '']''"

definition example_parse :: "string \<Rightarrow> error + QueuedOperation list" where
  "example_parse text =
     (if text = ''[]'' then Inr []
      else if text = example_stringify [op_A] then Inr [op_A]
      else if text = example_stringify [op_A, op_B] then Inr [op_A, op_B]
      else if text = example_stringify [op_A\<lparr>retryCount := 1\<rparr>] then Inr [op_A\<lparr>retryCount := 1\<rparr>]
      else Inl SyntaxError)"

definition example_platform :: platform where
  "example_platform =
     \<lparr>JSON_stringify = example_stringify, JSON_parse = example_parse,
      getItem_throws = False, setItem_throws = (\<lambda>k v. False)\<rparr>"

text \<open>A manager that is online and idle, with the given queue.\<close>

definition online_with :: "QueuedOperation list \<Rightarrow> manager" where
  "online_with q =
     \<lparr>queue = q, isOnline = True, syncInProgress = False, localStorage = Map.empty,
      awaiting = None, calls = [], console = []\<rparr>"



text \<open>A platform whose storage refuses every write.\<close>

definition quota_exceeded :: platform where
  "quota_exceeded = example_platform\<lparr>setItem_throws := (\<lambda>k v. True)\<rparr>"

text \<open>A platform whose storage holds at most thirty characters per slot.\<close>

definition small_quota :: platform where
  "small_quota = example_platform\<lparr>setItem_throws := (\<lambda>k v. length v > 30)\<rparr>"



section \<open>Lemmas\<close>

subsection \<open>Unfolding the loop\<close>

lemma sync_from_end:
  "\<not> i < length (queue s) \<Longrightarrow> sync_from pf i acc s = finish pf acc s"
  by (simp add: sync_from.simps[of pf i acc s])

lemma sync_from_call:
  "i < length (queue s) \<Longrightarrow> executeOperation (queue s ! i) = Inr c \<Longrightarrow>
     sync_from pf i acc s = s\<lparr>calls := calls s @ [c], awaiting := Some (i, acc)\<rparr>"
  by (simp add: sync_from.simps[of pf i acc s])

lemma sync_from_throw:
  "i < length (queue s) \<Longrightarrow> executeOperation (queue s ! i) = Inl e \<Longrightarrow>
     sync_from pf i acc s =
       sync_from pf (i + 1) (snd (on_failure e i acc s)) (fst (on_failure e i acc s))"
  by (simp add: sync_from.simps[of pf i acc s] split: prod.splits)

lemma on_failure_length [simp]:
  "length (queue (fst (on_failure e i acc s))) = length (queue s)"
  by (simp add: on_failure_def Let_def)

lemma on_success_queue [simp]:
  "queue (fst (on_success i acc s)) = queue s"
  by (simp add: on_success_def Let_def)

lemma finish_awaiting [simp]: "awaiting (finish pf acc s) = None"
  by (simp add: finish_def saveQueue_def Let_def split: sum.splits)

lemma sync_from_awaiting:
  "awaiting (sync_from pf k acc s) = Some (i, acc') \<Longrightarrow>
     k \<le> i \<and> i < length (queue s) \<and> length (queue (sync_from pf k acc s)) = length (queue s)"
proof (induction pf k acc s rule: sync_from.induct)
  case (1 pf k acc s)
  show ?case
  proof (cases "k < length (queue s)")
    case False
    with "1.prems" show ?thesis
      by (simp add: sync_from_end)
  next
    case True
    show ?thesis
    proof (cases "executeOperation (queue s ! k)")
      case (Inr c)
      with True "1.prems" show ?thesis
        by (simp add: sync_from_call)
    next
      case (Inl e)
      from "1.IH"[OF True Inl prod.collapse] "1.prems" sync_from_throw[OF True Inl, of pf acc]
      show ?thesis
        by simp
    qed
  qed
qed

subsection \<open>An uninterrupted pass in closed form\<close>

lemma finish_awaiting_irrelevant [simp]:
  "finish pf acc (s\<lparr>awaiting := x\<rparr>) = finish pf acc s"
  by (simp add: finish_def saveQueue_def Let_def split: sum.splits)

lemma fst_on_failure:
  "fst (on_failure e i acc s) =
     s\<lparr>queue := (queue s)[i := (queue s ! i)\<lparr>retryCount := retryCount (queue s ! i) + 1\<rparr>],
       console := console s @ FailedToSync (op_id (queue s ! i)) e
          # (if retryCount (queue s ! i) + 1 \<ge> MAX_RETRIES then [MaxRetriesReached (op_id (queue s ! i))] else [])\<rparr>"
  by (simp add: on_failure_def Let_def)

lemma snd_on_failure:
  "snd (on_failure e i acc s) =
     acc @ (if retryCount (queue s ! i) + 1 \<ge> MAX_RETRIES then [op_id (queue s ! i)] else [])"
  by (simp add: on_failure_def Let_def)

lemma fst_on_success:
  "fst (on_success i acc s) = s\<lparr>console := console s @ [SyncedOperation (op_id (queue s ! i))]\<rparr>"
  by (simp add: on_success_def Let_def)

lemma snd_on_success:
  "snd (on_success i acc s) = acc @ [op_id (queue s ! i)]"
  by (simp add: on_success_def Let_def)

lemma settle_awaiting:
  "awaiting s = Some (i, acc) \<Longrightarrow>
     settle pf ok s =
       (if ok then sync_from pf (i + 1) (snd (on_success i acc s)) (fst (on_success i acc s))
        else sync_from pf (i + 1) (snd (on_failure ServiceError i acc s)) (fst (on_failure ServiceError i acc s)))"
  by (simp add: settle_def split: prod.splits)

lemma complete_pass_idle: "awaiting s = None \<Longrightarrow> complete_pass pf d s = s"
  by (simp add: complete_pass.simps[of pf d s])

lemma complete_pass_step:
  "awaiting s = Some (i, acc) \<Longrightarrow> i < length (queue s) \<Longrightarrow>
     complete_pass pf d s = complete_pass pf d (settle pf (d i (queue s ! i)) s)"
  by (simp add: complete_pass.simps[of pf d s])

lemma complete_pass_sync_from:
  "i \<le> length (queue s) \<Longrightarrow>
   complete_pass pf d (sync_from pf i acc s) =
     finish pf (acc @ map (op_id \<circ> snd) (filter (marked d) (enumerate i (drop i (queue s)))))
       (s\<lparr>queue := take i (queue s) @ map (attempt d) (enumerate i (drop i (queue s))),
          calls := calls s @ concat (map issued (drop i (queue s))),
          console := console s @ concat (map (attempt_lines d) (enumerate i (drop i (queue s)))),
          awaiting := None\<rparr>)"
proof (induction "length (queue s) - i" arbitrary: i acc s)
  case 0
  then have "i = length (queue s)" by simp
  then show ?case
    by (simp add: sync_from_end complete_pass_idle)
next
  case (Suc n)
  then have lt: "i < length (queue s)" by simp
  let ?op = "queue s ! i"
  have dr: "drop i (queue s) = ?op # drop (Suc i) (queue s)"
    using lt by (simp add: Cons_nth_drop_Suc)
  show ?case
  proof (cases "executeOperation ?op")
    case (Inl e)
    let ?s1 = "fst (on_failure e i acc s)" and ?a1 = "snd (on_failure e i acc s)"
    have n: "n = length (queue ?s1) - (i + 1)" using Suc.hyps(2) by simp
    have le: "i + 1 \<le> length (queue ?s1)" using lt by simp
    have nd: "\<not> delivered d (i, ?op)" using Inl by (simp add: delivered_def)
    from Suc.hyps(1)[OF n le, of ?a1] sync_from_throw[OF lt Inl, of pf acc]
    show ?thesis
      using lt nd Inl
      by (simp add: dr fst_on_failure snd_on_failure take_Suc_conv_app_nth
          attempt_def marked_def issued_def attempt_lines_def)
  next
    case (Inr c)
    let ?t = "s\<lparr>calls := calls s @ [c], awaiting := Some (i, acc)\<rparr>"
    have 1: "sync_from pf i acc s = ?t" using lt Inr by (rule sync_from_call)
    have 2: "complete_pass pf d ?t = complete_pass pf d (settle pf (d i ?op) ?t)"
      using complete_pass_step[of ?t i acc pf d] lt by simp
    show ?thesis
    proof (cases "d i ?op")
      case True
      let ?s1 = "fst (on_success i acc ?t)" and ?a1 = "snd (on_success i acc ?t)"
      have n: "n = length (queue ?s1) - (i + 1)" using Suc.hyps(2) by simp
      have le: "i + 1 \<le> length (queue ?s1)" using lt by simp
      have dl: "delivered d (i, ?op)" using Inr True by (simp add: delivered_def)
      have 3: "settle pf (d i ?op) ?t = sync_from pf (i + 1) ?a1 ?s1"
        using True by (simp add: settle_awaiting)
      from Suc.hyps(1)[OF n le, of ?a1] 1 2 3
      show ?thesis
        using lt dl Inr
        by (simp add: dr fst_on_success snd_on_success take_Suc_conv_app_nth
            attempt_def marked_def issued_def attempt_lines_def)
    next
      case False
      let ?s1 = "fst (on_failure ServiceError i acc ?t)" and ?a1 = "snd (on_failure ServiceError i acc ?t)"
      have n: "n = length (queue ?s1) - (i + 1)" using Suc.hyps(2) by simp
      have le: "i + 1 \<le> length (queue ?s1)" using lt by simp
      have nd: "\<not> delivered d (i, ?op)" using Inr False by (simp add: delivered_def)
      have 3: "settle pf (d i ?op) ?t = sync_from pf (i + 1) ?a1 ?s1"
        using False by (simp add: settle_awaiting)
      from Suc.hyps(1)[OF n le, of ?a1] 1 2 3
      show ?thesis
        using lt nd Inr
        by (simp add: dr fst_on_failure snd_on_failure take_Suc_conv_app_nth
            attempt_def marked_def issued_def attempt_lines_def)
    qed
  qed
qed

lemma queue_finish [simp]:
  "queue (finish pf acc s) = filter (\<lambda>op. op_id op \<notin> set acc) (queue s)"
  by (simp add: finish_def saveQueue_def Let_def split: sum.splits)

lemma calls_finish [simp]: "calls (finish pf acc s) = calls s"
  by (simp add: finish_def saveQueue_def Let_def split: sum.splits)

lemma isOnline_finish [simp]: "isOnline (finish pf acc s) = isOnline s"
  by (simp add: finish_def saveQueue_def Let_def split: sum.splits)

lemma syncInProgress_finish [simp]: "syncInProgress (finish pf acc s) = False"
  by (simp add: finish_def saveQueue_def Let_def split: sum.splits)

lemma queue_saveQueue [simp]: "queue (saveQueue pf s) = queue s"
  by (simp add: saveQueue_def split: sum.splits)

lemma isOnline_saveQueue [simp]: "isOnline (saveQueue pf s) = isOnline s"
  by (simp add: saveQueue_def split: sum.splits)

lemma syncInProgress_saveQueue [simp]: "syncInProgress (saveQueue pf s) = syncInProgress s"
  by (simp add: saveQueue_def split: sum.splits)

lemma awaiting_saveQueue [simp]: "awaiting (saveQueue pf s) = awaiting s"
  by (simp add: saveQueue_def split: sum.splits)

lemma calls_saveQueue [simp]: "calls (saveQueue pf s) = calls s"
  by (simp add: saveQueue_def split: sum.splits)

lemma localStorage_saveQueue:
  "localStorage (saveQueue pf s) =
     (if setItem_throws pf STORAGE_KEY (JSON_stringify pf (queue s)) then localStorage s
      else (localStorage s)(STORAGE_KEY \<mapsto> JSON_stringify pf (queue s)))"
  by (simp add: saveQueue_def setItem_def)

lemma console_saveQueue:
  "console (saveQueue pf s) =
     console s @ (if setItem_throws pf STORAGE_KEY (JSON_stringify pf (queue s))
                  then [ErrorSaving QuotaExceededError] else [])"
  by (simp add: saveQueue_def setItem_def)

lemma localStorage_finish:
  "localStorage (finish pf acc s) =
     (let q = filter (\<lambda>op. op_id op \<notin> set acc) (queue s) in
      if setItem_throws pf STORAGE_KEY (JSON_stringify pf q) then localStorage s
      else (localStorage s)(STORAGE_KEY \<mapsto> JSON_stringify pf q))"
  by (simp add: finish_def saveQueue_def setItem_def Let_def)

lemma console_finish:
  "console (finish pf acc s) =
     console s
     @ (if setItem_throws pf STORAGE_KEY (JSON_stringify pf (filter (\<lambda>op. op_id op \<notin> set acc) (queue s)))
        then [ErrorSaving QuotaExceededError] else [])
     @ (if acc \<noteq> [] then [SyncedCount (length acc)] else [])"
  by (simp add: finish_def saveQueue_def setItem_def Let_def)

lemma full_sync_closed:
  assumes "isOnline s" "\<not> syncInProgress s" "queue s \<noteq> []"
  shows "full_sync pf d s =
     finish pf (marked_ids d (queue s))
       (s\<lparr>syncInProgress := True,
          queue := attempted d (queue s),
          calls := calls s @ concat (map issued (queue s)),
          console := console s @ SyncingLine (length (queue s))
                     # concat (map (attempt_lines d) (enumerate 0 (queue s)))\<rparr>)"
  using assms complete_pass_sync_from[of 0 "s\<lparr>syncInProgress := True,
                console := console s @ [SyncingLine (length (queue s))]\<rparr>" pf d "[]"]
  by (simp add: full_sync_def syncQueue_def marked_ids_def attempted_def)

lemma queue_full_sync:
  assumes "isOnline s" "\<not> syncInProgress s" "queue s \<noteq> []"
  shows "queue (full_sync pf d s) =
           filter (\<lambda>op. op_id op \<notin> set (marked_ids d (queue s))) (attempted d (queue s))"
  by (simp add: full_sync_closed[OF assms])

lemma calls_full_sync:
  assumes "isOnline s" "\<not> syncInProgress s" "queue s \<noteq> []"
  shows "calls (full_sync pf d s) = calls s @ concat (map issued (queue s))"
  by (simp add: full_sync_closed[OF assms])

lemma full_sync_idle:
  "\<not> isOnline s \<or> queue s = [] \<Longrightarrow> awaiting s = None \<Longrightarrow> full_sync pf d s = s"
  by (auto simp: full_sync_def syncQueue_def complete_pass_idle)


lemma length_attempted [simp]: "length (attempted d q) = length q"
  by (simp add: attempted_def)

lemma nth_attempted: "j < length q \<Longrightarrow> attempted d q ! j = attempt d (j, q ! j)"
  by (simp add: attempted_def nth_enumerate_eq)

lemma op_id_attempt [simp]: "op_id (attempt d p) = op_id (snd p)"
  by (simp add: attempt_def)

lemma ids_attempted [simp]: "map op_id (attempted d q) = map op_id q"
  by (rule nth_equalityI) (simp_all add: nth_attempted)






lemma attempts_logged_append [simp]:
  "attempts_logged (xs @ ys) = attempts_logged xs @ attempts_logged ys"
  by (simp add: attempts_logged_def)

lemma attempts_logged_Cons:
  "attempts_logged (x # xs) = attempt_of x @ attempts_logged xs"
  by (simp add: attempts_logged_def)

lemma attempts_logged_Nil [simp]: "attempts_logged [] = []"
  by (simp add: attempts_logged_def)

lemma attempts_logged_attempt_lines:
  "attempts_logged (concat (map (attempt_lines d) ps)) = map (op_id \<circ> snd) ps"
  by (induction ps) (simp_all add: attempt_lines_def attempts_logged_Cons)

lemma map_snd_enumerate' [simp]: "map (f \<circ> snd) (enumerate n xs) = map f xs"
  by (induction xs arbitrary: n) simp_all

lemma attempts_logged_full_sync:
  assumes "isOnline s" "\<not> syncInProgress s" "queue s \<noteq> []"
  shows "attempts_logged (console (full_sync pf d s)) = attempts_logged (console s) @ map op_id (queue s)"
  by (simp add: full_sync_closed[OF assms] console_finish attempts_logged_Cons
      attempts_logged_attempt_lines)

subsection \<open>What a pass does to one operation\<close>










subsection \<open>Enqueueing and persistence\<close>

lemma queueOperation_no_trigger:
  "\<not> (isOnline s \<and> \<not> syncInProgress s) \<Longrightarrow>
     queueOperation pf now rnd now' ty dat s =
       (generateId now rnd,
        (saveQueue pf (s\<lparr>queue := queue s @ [new_operation now rnd now' ty dat]\<rparr>))
          \<lparr>console := console (saveQueue pf (s\<lparr>queue := queue s @ [new_operation now rnd now' ty dat]\<rparr>))
                       @ [QueuedLine ty (new_operation now rnd now' ty dat)]\<rparr>)"
  by (auto simp: queueOperation_def new_operation_def Let_def)

lemma queueOperation_trigger:
  "isOnline s \<Longrightarrow> \<not> syncInProgress s \<Longrightarrow>
     queueOperation pf now rnd now' ty dat s =
       (generateId now rnd,
        syncQueue pf ((saveQueue pf (s\<lparr>queue := queue s @ [new_operation now rnd now' ty dat]\<rparr>))
          \<lparr>console := console (saveQueue pf (s\<lparr>queue := queue s @ [new_operation now rnd now' ty dat]\<rparr>))
                       @ [QueuedLine ty (new_operation now rnd now' ty dat)]\<rparr>))"
  by (auto simp: queueOperation_def new_operation_def Let_def)

lemma console_on_failure:
  "\<exists>extra. console (fst (on_failure e i acc s)) = console s @ extra \<and> \<not> list_ex is_syncing_line extra"
  by (simp add: fst_on_failure is_syncing_line_def)

lemma console_sync_from:
  "\<exists>extra. console (sync_from pf i acc s) = console s @ extra \<and> \<not> list_ex is_syncing_line extra"
proof (induction pf i acc s rule: sync_from.induct)
  case (1 pf i acc s)
  show ?case
  proof (cases "i < length (queue s)")
    case False
    then show ?thesis
      by (simp add: sync_from_end console_finish is_syncing_line_def)
  next
    case True
    show ?thesis
    proof (cases "executeOperation (queue s ! i)")
      case (Inr c)
      with True show ?thesis by (simp add: sync_from_call)
    next
      case (Inl e)
      from "1.IH"[OF True Inl prod.collapse]
      obtain extra where x: "console (sync_from pf (i + 1) (snd (on_failure e i acc s)) (fst (on_failure e i acc s)))
          = console (fst (on_failure e i acc s)) @ extra" "\<not> list_ex is_syncing_line extra"
        by blast
      from console_on_failure[of e i acc s] obtain extra0 where
        y: "console (fst (on_failure e i acc s)) = console s @ extra0" "\<not> list_ex is_syncing_line extra0"
        by blast
      from x y have "console (sync_from pf i acc s) = console s @ (extra0 @ extra)
          \<and> \<not> list_ex is_syncing_line (extra0 @ extra)"
        by (simp add: sync_from_throw[OF True Inl])
      then show ?thesis by blast
    qed
  qed
qed

lemma persisted_queue_saved:
  "storage_works pf q \<Longrightarrow> localStorage s STORAGE_KEY = Some (JSON_stringify pf q) \<Longrightarrow>
     persisted_queue pf s = q"
  by (simp add: persisted_queue_def storage_works_def loadQueue_def getItem_def initial_def)

lemma persisted_queue_saveQueue:
  "storage_works pf (queue s) \<Longrightarrow> persisted_queue pf (saveQueue pf s) = queue s"
  by (rule persisted_queue_saved) (simp_all add: localStorage_saveQueue storage_works_def)

lemma persisted_queue_console [simp]:
  "persisted_queue pf (s\<lparr>console := c\<rparr>) = persisted_queue pf s"
  by (simp add: persisted_queue_def)

lemma persisted_queue_finish:
  "storage_works pf (queue (finish pf acc s)) \<Longrightarrow>
     persisted_queue pf (finish pf acc s) = queue (finish pf acc s)"
  by (rule persisted_queue_saved) (simp_all add: localStorage_finish storage_works_def Let_def)

lemma new_manager_offline:
  "new_manager pf False ls = loadQueue pf (initial False ls)"
  by (simp add: new_manager_def Let_def loadQueue_def getItem_def initial_def split: option.splits sum.splits)

lemma new_manager_offline_empty:
  "\<not> getItem_throws pf \<Longrightarrow> new_manager pf False Map.empty = initial False Map.empty"
  by (simp add: new_manager_def loadQueue_def getItem_def initial_def Let_def)

lemma run_append: "run pf (es @ fs) s = run pf fs (run pf es s)"
  by (simp add: run_def)

lemma run_enqueue_offline:
  "\<not> isOnline s \<Longrightarrow>
     queue (run pf (map enqueue_event args) s) = queue s @ map enqueue_operation args
     \<and> calls (run pf (map enqueue_event args) s) = calls s
     \<and> \<not> isOnline (run pf (map enqueue_event args) s)
     \<and> awaiting (run pf (map enqueue_event args) s) = awaiting s
     \<and> syncInProgress (run pf (map enqueue_event args) s) = syncInProgress s"
proof (induction args arbitrary: s)
  case Nil
  then show ?case by (simp add: run_def)
next
  case (Cons a args)
  obtain now rnd now' ty dat where a: "a = (now, rnd, now', ty, dat)"
    by (cases a)
  let ?s1 = "step pf (enqueue_event a) s"
  have 1: "queue ?s1 = queue s @ [enqueue_operation a]" "calls ?s1 = calls s" "\<not> isOnline ?s1"
    "awaiting ?s1 = awaiting s" "syncInProgress ?s1 = syncInProgress s"
    using Cons.prems by (simp_all add: a queueOperation_no_trigger)
  have "run pf (map enqueue_event (a # args)) s = run pf (map enqueue_event args) ?s1"
    by (simp add: run_def)
  with Cons.IH[OF 1(3)] 1 show ?case by simp
qed

lemma run_enqueue_persisted:
  assumes "\<not> isOnline s" "args \<noteq> []"
    and "storage_works pf (queue s @ map enqueue_operation args)"
  shows "persisted_queue pf (run pf (map enqueue_event args) s) = queue s @ map enqueue_operation args"
proof -
  from assms(2) obtain bs b where ab: "args = bs @ [b]"
    by (metis rev_exhaust)
  obtain now rnd now' ty dat where b: "b = (now, rnd, now', ty, dat)"
    by (cases b)
  let ?t = "run pf (map enqueue_event bs) s"
  from run_enqueue_offline[OF assms(1), of pf bs]
  have t: "queue ?t = queue s @ map enqueue_operation bs" "\<not> isOnline ?t" by simp_all
  have "run pf (map enqueue_event args) s = step pf (enqueue_event b) ?t"
    by (simp add: ab run_def)
  then show ?thesis
    using t assms(3) by (simp add: ab b queueOperation_no_trigger persisted_queue_saveQueue)
qed

subsection \<open>Identifiers\<close>

lemma digit_inj:
  "a < 10 \<Longrightarrow> b < 10 \<Longrightarrow> ''0123456789'' ! a = ''0123456789'' ! b \<Longrightarrow> a = b"
proof -
  assume "a < 10" "b < 10"
  then have "a \<in> {0,1,2,3,4,5,6,7,8,9}" "b \<in> {0,1,2,3,4,5,6,7,8,9}"
    by auto
  moreover assume "''0123456789'' ! a = ''0123456789'' ! b"
  ultimately show "a = b"
    by auto
qed

lemma digit_not_underscore: "a < 10 \<Longrightarrow> ''0123456789'' ! a \<noteq> CHR ''_''"
proof -
  assume "a < 10"
  then have "a \<in> {0,1,2,3,4,5,6,7,8,9}"
    by auto
  then show ?thesis by auto
qed

lemma decimal_nonempty: "decimal n \<noteq> []"
  by (subst decimal.simps) simp

lemma decimal_no_underscore: "CHR ''_'' \<notin> set (decimal n)"
proof (induction n rule: decimal.induct)
  case (1 n)
  show ?case
  proof (cases "n < 10")
    case True
    then show ?thesis
      using digit_not_underscore[of n] by (subst decimal.simps) auto
  next
    case False
    then show ?thesis
      using "1.IH" digit_not_underscore[of "n mod 10"] by (subst decimal.simps) auto
  qed
qed

lemma decimal_inj: "decimal m = decimal n \<Longrightarrow> m = n"
proof (induction m arbitrary: n rule: decimal.induct)
  case (1 m)
  show ?case
  proof (cases "m < 10")
    case m: True
    show ?thesis
    proof (cases "n < 10")
      case True
      with m "1.prems" show ?thesis
        using digit_inj[of m n] by (simp add: decimal.simps[of m] decimal.simps[of n])
    next
      case False
      with m "1.prems" decimal_nonempty[of "n div 10"] show ?thesis
        by (simp add: decimal.simps[of m] decimal.simps[of n])
    qed
  next
    case m: False
    show ?thesis
    proof (cases "n < 10")
      case True
      with m "1.prems" decimal_nonempty[of "m div 10"] show ?thesis
        by (simp add: decimal.simps[of m] decimal.simps[of n])
    next
      case False
      with m "1.prems" have "decimal (m div 10) = decimal (n div 10)"
        and "''0123456789'' ! (m mod 10) = ''0123456789'' ! (n mod 10)"
        by (simp_all add: decimal.simps[of m] decimal.simps[of n])
      with "1.IH"[OF m] digit_inj[of "m mod 10" "n mod 10"]
      have "m div 10 = n div 10" "m mod 10 = n mod 10"
        by simp_all
      then show ?thesis
        by (metis div_mult_mod_eq)
    qed
  qed
qed

lemma split_at_separator:
  "c \<notin> set xs \<Longrightarrow> c \<notin> set xs' \<Longrightarrow> xs @ c # ys = xs' @ c # ys' \<Longrightarrow> xs = xs' \<and> ys = ys'"
proof (induction xs arbitrary: xs')
  case Nil
  then show ?case by (cases xs') auto
next
  case (Cons x xs)
  then show ?case by (cases xs') auto
qed

lemma generateId_eq_iff:
  "generateId now rnd = generateId m r \<longleftrightarrow> now = m \<and> take 9 (drop 2 rnd) = take 9 (drop 2 r)"
proof
  assume "generateId now rnd = generateId m r"
  then have "decimal now @ CHR ''_'' # take 9 (drop 2 rnd) = decimal m @ CHR ''_'' # take 9 (drop 2 r)"
    by (simp add: generateId_def)
  from split_at_separator[OF decimal_no_underscore decimal_no_underscore this]
  show "now = m \<and> take 9 (drop 2 rnd) = take 9 (drop 2 r)"
    by (auto dest: decimal_inj)
next
  assume "now = m \<and> take 9 (drop 2 rnd) = take 9 (drop 2 r)"
  then show "generateId now rnd = generateId m r"
    by (simp add: generateId_def)
qed

lemma ids_list_update:
  "map op_id (q[i := (q ! i)\<lparr>retryCount := n\<rparr>]) = map op_id q"
proof (cases "i < length q")
  case True
  then show ?thesis
    by (intro nth_equalityI) (simp_all add: nth_list_update)
next
  case False
  then show ?thesis by (simp add: list_update_beyond)
qed

lemma ids_on_failure [simp]:
  "map op_id (queue (fst (on_failure e i acc s))) = map op_id (queue s)"
  by (simp add: fst_on_failure ids_list_update)

lemma ids_sync_from:
  "\<exists>P. map op_id (queue (sync_from pf i acc s)) = filter P (map op_id (queue s))"
proof (induction pf i acc s rule: sync_from.induct)
  case (1 pf i acc s)
  show ?case
  proof (cases "i < length (queue s)")
    case False
    have "map op_id (filter (\<lambda>op. op_id op \<notin> set acc) q) = filter (\<lambda>x. x \<notin> set acc) (map op_id q)"
      for q :: "QueuedOperation list"
      by (induction q) simp_all
    with False show ?thesis
      by (auto simp: sync_from_end)
  next
    case True
    show ?thesis
    proof (cases "executeOperation (queue s ! i)")
      case (Inr c)
      have "\<exists>P. map op_id (queue s) = filter P (map op_id (queue s))"
        by (rule exI[of _ "\<lambda>x. True"]) simp
      with True Inr show ?thesis
        by (simp add: sync_from_call)
    next
      case (Inl e)
      from "1.IH"[OF True Inl prod.collapse] show ?thesis
        by (simp add: sync_from_throw[OF True Inl])
    qed
  qed
qed

lemma distinct_sync_from:
  "distinct (map op_id (queue s)) \<Longrightarrow> distinct (map op_id (queue (sync_from pf i acc s)))"
  using ids_sync_from[of pf i acc s] by auto

lemma distinct_syncQueue:
  "distinct (map op_id (queue s)) \<Longrightarrow> distinct (map op_id (queue (syncQueue pf s)))"
  by (simp add: syncQueue_def distinct_sync_from)

lemma distinct_settle:
  "distinct (map op_id (queue s)) \<Longrightarrow> distinct (map op_id (queue (settle pf ok s)))"
  by (cases "awaiting s") (auto simp: settle_def distinct_sync_from split: prod.splits
      simp: on_success_def Let_def dest!: arg_cong[where f = fst] intro!: distinct_sync_from)

lemma distinct_step:
  assumes "distinct (map op_id (queue s))"
    and "case e of Enqueue now rnd now' ty dat \<Rightarrow> generateId now rnd \<notin> op_id ` set (queue s)
               | _ \<Rightarrow> True"
  shows "distinct (map op_id (queue (step pf e s)))"
proof (cases e)
  case (Enqueue now rnd now' ty dat)
  let ?t = "(saveQueue pf (s\<lparr>queue := queue s @ [new_operation now rnd now' ty dat]\<rparr>))
          \<lparr>console := console (saveQueue pf (s\<lparr>queue := queue s @ [new_operation now rnd now' ty dat]\<rparr>))
             @ [QueuedLine ty (new_operation now rnd now' ty dat)]\<rparr>"
  have d: "distinct (map op_id (queue ?t))"
    using assms Enqueue by (simp add: new_operation_def)
  show ?thesis
  proof (cases "isOnline s \<and> \<not> syncInProgress s")
    case True
    then have "step pf e s = syncQueue pf ?t"
      by (simp add: Enqueue queueOperation_trigger)
    with d show ?thesis
      by (simp add: distinct_syncQueue)
  next
    case False
    then have "step pf e s = ?t"
      by (simp add: Enqueue queueOperation_no_trigger)
    with d show ?thesis by simp
  qed
next
  case Online
  with assms(1) show ?thesis
    by (simp add: on_online_def distinct_syncQueue)
next
  case Offline
  with assms(1) show ?thesis
    by (simp add: on_offline_def)
next
  case (Settled ok)
  with assms(1) show ?thesis
    by (simp add: distinct_settle)
qed

subsection \<open>Passes interleaved with other events\<close>

lemma processed_0 [simp]: "processed 0 acc q"
  by (simp add: processed_def)

lemma processed_on_success:
  "processed i acc q \<Longrightarrow> processed (Suc i) (acc @ [op_id (q ! i)]) q"
  by (auto simp: processed_def less_Suc_eq)

lemma processed_on_failure:
  assumes "processed i acc q" "i < length q"
  shows "processed (Suc i)
           (acc @ (if retryCount (q ! i) + 1 \<ge> MAX_RETRIES then [op_id (q ! i)] else []))
           (q[i := (q ! i)\<lparr>retryCount := retryCount (q ! i) + 1\<rparr>])"
  using assms by (auto simp: processed_def less_Suc_eq nth_list_update)

lemma processed_append: "processed i acc q \<Longrightarrow> i \<le> length q \<Longrightarrow> processed i acc (q @ q')"
  by (auto simp: processed_def nth_append)

lemma syncInProgress_on_failure [simp]:
  "syncInProgress (fst (on_failure e i acc s)) = syncInProgress s"
  by (simp add: fst_on_failure)

lemma sync_from_invariant:
  "syncInProgress s \<Longrightarrow> i \<le> length (queue s) \<Longrightarrow> processed i acc (queue s) \<Longrightarrow>
     pass_invariant (sync_from pf i acc s)
     \<and> (\<not> syncInProgress (sync_from pf i acc s) \<longrightarrow> below_cap (sync_from pf i acc s))"
proof (induction pf i acc s rule: sync_from.induct)
  case (1 pf i acc s)
  show ?case
  proof (cases "i < length (queue s)")
    case False
    with "1.prems" have "i = length (queue s)" by simp
    with "1.prems" have "\<forall>op \<in> set (queue s). op_id op \<in> set acc \<or> retryCount op < MAX_RETRIES"
      by (auto simp: processed_def in_set_conv_nth)
    then have "below_cap (finish pf acc s)"
      by (auto simp: below_cap_def)
    with False show ?thesis
      by (simp add: sync_from_end pass_invariant_def)
  next
    case True
    show ?thesis
    proof (cases "executeOperation (queue s ! i)")
      case (Inr c)
      with True "1.prems" show ?thesis
        by (simp add: sync_from_call pass_invariant_def)
    next
      case (Inl e)
      have "processed (i + 1) (snd (on_failure e i acc s)) (queue (fst (on_failure e i acc s)))"
        using processed_on_failure[OF "1.prems"(3) True]
        by (simp add: fst_on_failure snd_on_failure)
      with "1.IH"[OF True Inl prod.collapse] "1.prems"(1) True show ?thesis
        by (simp add: sync_from_throw[OF True Inl])
    qed
  qed
qed

lemma syncQueue_invariant:
  assumes "pass_invariant s"
  shows "pass_invariant (syncQueue pf s)"
    and "\<not> syncInProgress s \<Longrightarrow> isOnline s \<Longrightarrow> queue s \<noteq> [] \<Longrightarrow>
           \<not> syncInProgress (syncQueue pf s) \<Longrightarrow> below_cap (syncQueue pf s)"
  using assms
    sync_from_invariant[of "s\<lparr>syncInProgress := True, console := console s @ [SyncingLine (length (queue s))]\<rparr>"
      0 "[]" pf]
  by (auto simp: syncQueue_def)

lemma pass_invariant_irrelevant [simp]:
  "pass_invariant (s\<lparr>console := c\<rparr>) = pass_invariant s"
  "pass_invariant (s\<lparr>isOnline := b\<rparr>) = pass_invariant s"
  "pass_invariant (s\<lparr>localStorage := l\<rparr>) = pass_invariant s"
  by (simp_all add: pass_invariant_def split: option.splits)

lemma pass_invariant_saveQueue [simp]: "pass_invariant (saveQueue pf s) = pass_invariant s"
  by (simp add: saveQueue_def split: sum.splits)

lemma pass_invariant_push:
  "pass_invariant s \<Longrightarrow> pass_invariant (s\<lparr>queue := queue s @ [op]\<rparr>)"
  by (auto simp: pass_invariant_def processed_append split: option.splits)

lemma settle_invariant:
  assumes "pass_invariant s"
  shows "pass_invariant (settle pf ok s)
       \<and> (\<not> syncInProgress (settle pf ok s) \<longrightarrow> syncInProgress s \<longrightarrow> below_cap (settle pf ok s))"
proof (cases "awaiting s")
  case None
  with assms show ?thesis
    by (simp add: settle_def pass_invariant_def)
next
  case (Some x)
  obtain i acc where x: "x = (i, acc)" by (cases x)
  from assms Some x have inv: "syncInProgress s" "i < length (queue s)" "processed i acc (queue s)"
    by (simp_all add: pass_invariant_def)
  show ?thesis
  proof (cases ok)
    case True
    have "processed (i + 1) (snd (on_success i acc s)) (queue (fst (on_success i acc s)))"
      using processed_on_success[OF inv(3)] by (simp add: fst_on_success snd_on_success)
    with inv sync_from_invariant[of "fst (on_success i acc s)" "i + 1" "snd (on_success i acc s)" pf]
    show ?thesis
      using True Some x by (simp add: settle_awaiting fst_on_success)
  next
    case False
    have "processed (i + 1) (snd (on_failure ServiceError i acc s))
            (queue (fst (on_failure ServiceError i acc s)))"
      using processed_on_failure[OF inv(3) inv(2)] by (simp add: fst_on_failure snd_on_failure)
    with inv sync_from_invariant[of "fst (on_failure ServiceError i acc s)" "i + 1"
        "snd (on_failure ServiceError i acc s)" pf]
    show ?thesis
      using False Some x by (simp add: settle_awaiting)
  qed
qed

lemma step_invariant:
  assumes "pass_invariant s"
  shows "pass_invariant (step pf e s) \<and> (pass_ends pf e s \<longrightarrow> below_cap (step pf e s))"
proof (cases e)
  case (Enqueue now rnd now' ty dat)
  let ?t = "(saveQueue pf (s\<lparr>queue := queue s @ [new_operation now rnd now' ty dat]\<rparr>))
          \<lparr>console := console (saveQueue pf (s\<lparr>queue := queue s @ [new_operation now rnd now' ty dat]\<rparr>))
             @ [QueuedLine ty (new_operation now rnd now' ty dat)]\<rparr>"
  have t: "pass_invariant ?t"
    using assms by (simp add: pass_invariant_push)
  show ?thesis
  proof (cases "isOnline s \<and> \<not> syncInProgress s")
    case True
    then have st: "snd (queueOperation pf now rnd now' ty dat s) = syncQueue pf ?t"
      by (simp add: queueOperation_trigger)
    from True syncQueue_invariant[OF t, of pf] show ?thesis
      by (simp add: Enqueue st pass_ends_def)
  next
    case False
    then have st: "snd (queueOperation pf now rnd now' ty dat s) = ?t"
      by (simp add: queueOperation_no_trigger)
    from False t show ?thesis
      by (auto simp: Enqueue st pass_ends_def enters_pass_def)
  qed
next
  case Online
  let ?t = "s\<lparr>console := console s @ [ConnectionRestored], isOnline := True\<rparr>"
  have t: "pass_invariant ?t" using assms by simp
  from syncQueue_invariant[OF t, of pf] show ?thesis
    by (auto simp: Online on_online_def pass_ends_def enters_pass_def syncQueue_def)
next
  case Offline
  with assms show ?thesis
    by (simp add: on_offline_def pass_ends_def enters_pass_def)
next
  case (Settled ok)
  with settle_invariant[OF assms, of pf ok] show ?thesis
    by (simp add: pass_ends_def enters_pass_def)
qed

lemma run_invariant: "pass_invariant s \<Longrightarrow> pass_invariant (run pf es s)"
proof (induction es arbitrary: s)
  case Nil
  then show ?case by (simp add: run_def)
next
  case (Cons e es)
  from step_invariant[OF Cons.prems, of pf e] have "pass_invariant (step pf e s)" by simp
  from Cons.IH[OF this] show ?case by (simp add: run_def)
qed

lemma new_manager_invariant: "pass_invariant (new_manager pf onLine ls)"
proof -
  have "pass_invariant (loadQueue pf (initial onLine ls))"
    by (simp add: loadQueue_def getItem_def initial_def pass_invariant_def split: option.splits sum.splits)
  then show ?thesis
    by (simp add: new_manager_def Let_def syncQueue_invariant)
qed

lemma sync_from_ends_in_finish:
  "syncInProgress s \<Longrightarrow> \<not> syncInProgress (sync_from pf i acc s) \<Longrightarrow>
     \<exists>acc' t. sync_from pf i acc s = finish pf acc' t"
proof (induction pf i acc s rule: sync_from.induct)
  case (1 pf i acc s)
  show ?case
  proof (cases "i < length (queue s)")
    case False
    then show ?thesis
      by (auto simp: sync_from_end)
  next
    case True
    show ?thesis
    proof (cases "executeOperation (queue s ! i)")
      case (Inr c)
      with True "1.prems" show ?thesis
        by (simp add: sync_from_call)
    next
      case (Inl e)
      from "1.IH"[OF True Inl prod.collapse] "1.prems" show ?thesis
        by (simp add: sync_from_throw[OF True Inl])
    qed
  qed
qed

lemma pass_end_is_finish:
  assumes inv: "pass_invariant s" and ends: "pass_ends pf e s"
  shows "\<exists>acc t. step pf e s = finish pf acc t"
proof (cases e)
  case (Enqueue now rnd now' ty dat)
  let ?t = "(saveQueue pf (s\<lparr>queue := queue s @ [new_operation now rnd now' ty dat]\<rparr>))
          \<lparr>console := console (saveQueue pf (s\<lparr>queue := queue s @ [new_operation now rnd now' ty dat]\<rparr>))
             @ [QueuedLine ty (new_operation now rnd now' ty dat)]\<rparr>"
  show ?thesis
  proof (cases "isOnline s \<and> \<not> syncInProgress s")
    case True
    let ?u = "?t\<lparr>syncInProgress := True, console := console ?t @ [SyncingLine (length (queue ?t))]\<rparr>"
    have st: "step pf e s = sync_from pf 0 [] ?u"
      using True by (simp add: Enqueue queueOperation_trigger syncQueue_def)
    from ends have "\<not> syncInProgress (sync_from pf 0 [] ?u)"
      by (simp add: pass_ends_def st)
    from sync_from_ends_in_finish[OF _ this] show ?thesis
      by (simp add: st)
  next
    case False
    then have st: "snd (queueOperation pf now rnd now' ty dat s) = ?t"
      by (simp add: queueOperation_no_trigger)
    from False ends show ?thesis
      by (auto simp: Enqueue st pass_ends_def enters_pass_def)
  qed
next
  case Online
  let ?t = "s\<lparr>console := console s @ [ConnectionRestored], isOnline := True\<rparr>"
  let ?u = "?t\<lparr>syncInProgress := True, console := console ?t @ [SyncingLine (length (queue ?t))]\<rparr>"
  show ?thesis
  proof (cases "syncInProgress s \<or> queue s = []")
    case True
    with ends show ?thesis
      by (auto simp: Online on_online_def pass_ends_def enters_pass_def syncQueue_def)
  next
    case False
    then have st: "step pf e s = sync_from pf 0 [] ?u"
      by (simp add: Online on_online_def syncQueue_def)
    from ends have "\<not> syncInProgress (sync_from pf 0 [] ?u)"
      by (simp add: pass_ends_def st)
    from sync_from_ends_in_finish[OF _ this] show ?thesis
      by (simp add: st)
  qed
next
  case Offline
  with ends show ?thesis
    by (simp add: on_offline_def pass_ends_def enters_pass_def)
next
  case (Settled ok)
  from ends have sp: "syncInProgress s" and nsp: "\<not> syncInProgress (settle pf ok s)"
    by (simp_all add: Settled pass_ends_def enters_pass_def)
  from inv sp obtain i acc where aw: "awaiting s = Some (i, acc)"
    by (cases "awaiting s") (auto simp: pass_invariant_def)
  show ?thesis
  proof (cases ok)
    case True
    with aw have st: "settle pf ok s = sync_from pf (i + 1) (snd (on_success i acc s)) (fst (on_success i acc s))"
      by (simp add: settle_awaiting)
    have "syncInProgress (fst (on_success i acc s))"
      using sp by (simp add: fst_on_success)
    from sync_from_ends_in_finish[OF this nsp[unfolded st]] show ?thesis
      by (simp add: Settled st)
  next
    case False
    with aw have st: "settle pf ok s = sync_from pf (i + 1) (snd (on_failure ServiceError i acc s))
        (fst (on_failure ServiceError i acc s))"
      by (simp add: settle_awaiting)
    have "syncInProgress (fst (on_failure ServiceError i acc s))"
      using sp by simp
    from sync_from_ends_in_finish[OF this nsp[unfolded st]] show ?thesis
      by (simp add: Settled st)
  qed
qed

lemma pass_end_persisted:
  assumes "pass_ends pf e (run pf es (new_manager pf onLine ls))"
    and "storage_works pf (queue (step pf e (run pf es (new_manager pf onLine ls))))"
  shows "persisted_queue pf (step pf e (run pf es (new_manager pf onLine ls)))
           = queue (step pf e (run pf es (new_manager pf onLine ls)))"
proof -
  from pass_end_is_finish[OF run_invariant[OF new_manager_invariant] assms(1)]
  obtain acc t where "step pf e (run pf es (new_manager pf onLine ls)) = finish pf acc t"
    by blast
  with assms(2) persisted_queue_finish[of pf acc t] show ?thesis
    by simp
qed

subsection \<open>The examples evaluated\<close>

lemma example_text [simp]: "example_stringify [op_A] = ''[offline_1000_abc:0;]''"
  by (simp add: example_stringify_def op_A_def decimal.simps)

lemma example_text1 [simp]:
  "example_stringify [op_A\<lparr>retryCount := 1\<rparr>] = ''[offline_1000_abc:1;]''"
  by (simp add: example_stringify_def op_A_def decimal.simps)

lemma example_text2 [simp]:
  "example_stringify [op_A, op_B] = ''[offline_1000_abc:0;offline_2000_xyz:0;]''"
  by (simp add: example_stringify_def op_A_def op_B_def decimal.simps)

lemma example_storage_works:
  "storage_works example_platform []"
  "storage_works example_platform [op_A]"
  "storage_works example_platform [op_A, op_B]"
  "storage_works example_platform [op_A\<lparr>retryCount := 1\<rparr>]"
  by (simp_all add: storage_works_def example_platform_def example_parse_def)
    (simp add: example_stringify_def)

lemma new_operation_A: "new_operation 1000 ''0.abc'' 1000 CREATE harvest_A = op_A"
  by (simp add: new_operation_def op_A_def generateId_def decimal.simps)

lemma new_operation_B: "new_operation 2000 ''0.xyz'' 2000 CREATE harvest_B = op_B"
  by (simp add: new_operation_def op_B_def generateId_def decimal.simps)




lemma pass_started_example:
  "run example_platform [Enqueue 1000 ''0.abc'' 1000 CREATE harvest_A] (new_manager example_platform True Map.empty) =
     \<lparr>queue = [op_A], isOnline = True, syncInProgress = True,
      localStorage = [STORAGE_KEY \<mapsto> ''[offline_1000_abc:0;]''], awaiting = Some (0, []),
      calls = [CreateHarvest harvest_A],
      console = [QueuedLine CREATE op_A, SyncingLine 1]\<rparr>"
proof -
  have "new_manager example_platform True Map.empty = initial True Map.empty"
    by (simp add: new_manager_def initial_def loadQueue_def getItem_def example_platform_def
        syncQueue_def Let_def)
  then show ?thesis
    by (simp add: run_def queueOperation_trigger initial_def new_operation_A saveQueue_def
        setItem_def example_platform_def syncQueue_def sync_from.simps executeOperation_def)
      (simp add: op_A_def)
qed

lemma pass_finished_example:
  "step example_platform (Settled True)
     (run example_platform [Enqueue 1000 ''0.abc'' 1000 CREATE harvest_A] (new_manager example_platform True Map.empty)) =
     \<lparr>queue = [], isOnline = True, syncInProgress = False,
      localStorage = [STORAGE_KEY \<mapsto> ''[]''], awaiting = None,
      calls = [CreateHarvest harvest_A],
      console = [QueuedLine CREATE op_A, SyncingLine 1, SyncedOperation ''offline_1000_abc'', SyncedCount 1]\<rparr>"
  unfolding pass_started_example
  by (simp add: settle_def on_success_def Let_def sync_from.simps finish_def saveQueue_def
      setItem_def example_platform_def example_stringify_def op_A_def)

lemma pass_in_flight_example:
  "run example_platform [Enqueue 1000 ''0.abc'' 1000 CREATE harvest_A, Offline] (online_with []) =
     \<lparr>queue = [op_A], isOnline = False, syncInProgress = True,
      localStorage = [STORAGE_KEY \<mapsto> ''[offline_1000_abc:0;]''], awaiting = Some (0, []),
      calls = [CreateHarvest harvest_A],
      console = [QueuedLine CREATE op_A, SyncingLine 1, ConnectionLost]\<rparr>"
  by (simp add: run_def queueOperation_trigger online_with_def new_operation_A saveQueue_def
      setItem_def example_platform_def syncQueue_def sync_from.simps executeOperation_def
      on_offline_def)
    (simp add: op_A_def)

section \<open>Properties\<close>





text \<open>
  C3 (as amended). Every call of \<^verbatim>\<open>queueOperation\<close> returns the identifier of a new
  operation with retry count 0. A pass is started by the call (the console shows the
  line that opens a pass) if and only if the manager is online and no pass is in
  progress. When no pass is started, the operation is appended to the queue and no
  service call is issued; when one is started, it starts from the queue with the
  operation appended. The queue is written to storage before the pass is considered:
  the stored queue equals the in-memory queue whenever storage works for it, and storage
  is left as it was when the write throws. For every sequence of calls made while
  offline, the queue grows by one operation per call in call order, no service call is
  issued, and after the last call the stored queue is the in-memory queue (so its length
  is the initial length plus the number of calls) whenever storage works for it.
\<close>

theorem queueOperation_effect:
  "fst (queueOperation pf now rnd now' ty dat s) = generateId now rnd
   \<and> op_id (new_operation now rnd now' ty dat) = generateId now rnd
   \<and> retryCount (new_operation now rnd now' ty dat) = 0
   \<and> (list_ex is_syncing_line (drop (length (console s)) (console (snd (queueOperation pf now rnd now' ty dat s))))
        \<longleftrightarrow> isOnline s \<and> \<not> syncInProgress s)
   \<and> (\<not> (isOnline s \<and> \<not> syncInProgress s) \<longrightarrow>
        queue (snd (queueOperation pf now rnd now' ty dat s)) = queue s @ [new_operation now rnd now' ty dat]
      \<and> calls (snd (queueOperation pf now rnd now' ty dat s)) = calls s
      \<and> (storage_works pf (queue s @ [new_operation now rnd now' ty dat]) \<longrightarrow>
           persisted_queue pf (snd (queueOperation pf now rnd now' ty dat s))
             = queue s @ [new_operation now rnd now' ty dat]))
   \<and> (isOnline s \<and> \<not> syncInProgress s \<longrightarrow>
        (\<exists>t. snd (queueOperation pf now rnd now' ty dat s) = syncQueue pf t
            \<and> queue t = queue s @ [new_operation now rnd now' ty dat]
            \<and> calls t = calls s \<and> isOnline t \<and> \<not> syncInProgress t
            \<and> (storage_works pf (queue t) \<longrightarrow> persisted_queue pf t = queue t)))
   \<and> (\<not> isOnline s \<longrightarrow>
        queue (run pf (map enqueue_event args) s) = queue s @ map enqueue_operation args
      \<and> length (queue (run pf (map enqueue_event args) s)) = length (queue s) + length args
      \<and> calls (run pf (map enqueue_event args) s) = calls s
      \<and> (args \<noteq> [] \<and> storage_works pf (queue s @ map enqueue_operation args) \<longrightarrow>
           persisted_queue pf (run pf (map enqueue_event args) s) = queue s @ map enqueue_operation args
         \<and> length (persisted_queue pf (run pf (map enqueue_event args) s)) = length (queue s) + length args))"
proof -
  let ?op = "new_operation now rnd now' ty dat"
  let ?r = "queueOperation pf now rnd now' ty dat s"
  let ?t = "(saveQueue pf (s\<lparr>queue := queue s @ [?op]\<rparr>))
          \<lparr>console := console (saveQueue pf (s\<lparr>queue := queue s @ [?op]\<rparr>)) @ [QueuedLine ty ?op]\<rparr>"
  have a: "fst ?r = generateId now rnd"
    by (simp add: queueOperation_def Let_def)
  have b: "op_id ?op = generateId now rnd" "retryCount ?op = 0"
    by (simp_all add: new_operation_def)
  have ct: "drop (length (console s)) (console ?t)
      = (if setItem_throws pf STORAGE_KEY (JSON_stringify pf (queue s @ [?op]))
         then [ErrorSaving QuotaExceededError] else []) @ [QueuedLine ty ?op]"
    by (simp add: console_saveQueue)
  have c1: "\<not> list_ex is_syncing_line (drop (length (console s)) (console (snd ?r)))"
    if "\<not> (isOnline s \<and> \<not> syncInProgress s)"
    using that ct by (simp add: queueOperation_no_trigger is_syncing_line_def)
  have c2: "list_ex is_syncing_line (drop (length (console s)) (console (snd ?r)))"
    if on: "isOnline s \<and> \<not> syncInProgress s"
  proof -
    let ?u = "?t\<lparr>syncInProgress := True, console := console ?t @ [SyncingLine (length (queue ?t))]\<rparr>"
    have r: "snd ?r = sync_from pf 0 [] ?u"
      using on by (simp add: queueOperation_trigger syncQueue_def)
    from console_sync_from[of pf 0 "[]" ?u] obtain extra where
      "console (snd ?r) = console ?u @ extra"
      using r by auto
    then have "drop (length (console s)) (console (snd ?r))
        = drop (length (console s)) (console ?t) @ [SyncingLine (length (queue ?t))] @ extra"
      by (simp add: console_saveQueue)
    then show ?thesis
      by (simp add: is_syncing_line_def)
  qed
  have d: "queue (snd ?r) = queue s @ [?op] \<and> calls (snd ?r) = calls s
      \<and> (storage_works pf (queue s @ [?op]) \<longrightarrow> persisted_queue pf (snd ?r) = queue s @ [?op])"
    if "\<not> (isOnline s \<and> \<not> syncInProgress s)"
    using that persisted_queue_saveQueue[of pf "s\<lparr>queue := queue s @ [?op]\<rparr>"]
    by (simp add: queueOperation_no_trigger)
  have e: "\<exists>t. snd ?r = syncQueue pf t \<and> queue t = queue s @ [?op]
            \<and> calls t = calls s \<and> isOnline t \<and> \<not> syncInProgress t
            \<and> (storage_works pf (queue t) \<longrightarrow> persisted_queue pf t = queue t)"
    if on: "isOnline s \<and> \<not> syncInProgress s"
    using on persisted_queue_saveQueue[of pf "s\<lparr>queue := queue s @ [?op]\<rparr>"]
    by (intro exI[of _ ?t]) (simp add: queueOperation_trigger)
  have f: "queue (run pf (map enqueue_event args) s) = queue s @ map enqueue_operation args
      \<and> length (queue (run pf (map enqueue_event args) s)) = length (queue s) + length args
      \<and> calls (run pf (map enqueue_event args) s) = calls s
      \<and> (args \<noteq> [] \<and> storage_works pf (queue s @ map enqueue_operation args) \<longrightarrow>
           persisted_queue pf (run pf (map enqueue_event args) s) = queue s @ map enqueue_operation args
         \<and> length (persisted_queue pf (run pf (map enqueue_event args) s)) = length (queue s) + length args)"
    if off: "\<not> isOnline s"
    using run_enqueue_offline[OF off, of pf args] run_enqueue_persisted[OF off, of args pf]
    by auto
  from a b c1 c2 d e f show ?thesis
    by blast
qed

theorem queueOperation_effect_witness:
  "\<not> isOnline (initial False Map.empty)
   \<and> fst (queueOperation example_platform 1000 ''0.abc'' 1000 CREATE harvest_A (initial False Map.empty))
       = ''offline_1000_abc''
   \<and> queue (snd (queueOperation example_platform 1000 ''0.abc'' 1000 CREATE harvest_A (initial False Map.empty)))
       = [op_A]
   \<and> storage_works example_platform [op_A]
   \<and> persisted_queue example_platform
        (snd (queueOperation example_platform 1000 ''0.abc'' 1000 CREATE harvest_A (initial False Map.empty)))
       = [op_A]
   \<and> storage_works example_platform [op_A, op_B]
   \<and> persisted_queue example_platform
        (run example_platform
           (map enqueue_event [(1000, ''0.abc'', 1000, CREATE, harvest_A), (2000, ''0.xyz'', 2000, CREATE, harvest_B)])
           (initial False Map.empty))
       = [op_A, op_B]
   \<and> calls (run example_platform
           (map enqueue_event [(1000, ''0.abc'', 1000, CREATE, harvest_A), (2000, ''0.xyz'', 2000, CREATE, harvest_B)])
           (initial False Map.empty)) = []
   \<and> isOnline (online_with []) \<and> \<not> syncInProgress (online_with [])
   \<and> list_ex is_syncing_line (drop (length (console (online_with [])))
        (console (snd (queueOperation example_platform 1000 ''0.abc'' 1000 CREATE harvest_A (online_with [])))))"
  using queueOperation_effect[of example_platform 1000 "''0.abc''" 1000 CREATE harvest_A "initial False Map.empty"
      "[(1000, ''0.abc'', 1000, CREATE, harvest_A), (2000, ''0.xyz'', 2000, CREATE, harvest_B)]"]
    queueOperation_effect[of example_platform 1000 "''0.abc''" 1000 CREATE harvest_A "online_with []"]
    example_storage_works
  by (simp add: new_operation_A new_operation_B initial_def online_with_def op_A_def)

text \<open>
  C3 as stated fails where the storage refuses the write: one call made while offline
  leaves one operation in memory and none in storage.
\<close>

theorem enqueue_not_persisted:
  "\<not> isOnline (new_manager quota_exceeded False Map.empty)
   \<and> queue (snd (queueOperation quota_exceeded 1000 ''0.abc'' 1000 CREATE harvest_A
                  (new_manager quota_exceeded False Map.empty))) = [op_A]
   \<and> localStorage (snd (queueOperation quota_exceeded 1000 ''0.abc'' 1000 CREATE harvest_A
                  (new_manager quota_exceeded False Map.empty))) STORAGE_KEY = None
   \<and> persisted_queue quota_exceeded (snd (queueOperation quota_exceeded 1000 ''0.abc'' 1000 CREATE harvest_A
                  (new_manager quota_exceeded False Map.empty))) = []
   \<and> length (persisted_queue quota_exceeded (run quota_exceeded
                  (map enqueue_event [(1000, ''0.abc'', 1000, CREATE, harvest_A)])
                  (new_manager quota_exceeded False Map.empty))) \<noteq> length [(1000, ''0.abc'', 1000, CREATE, harvest_A)]"
proof -
  have "new_manager quota_exceeded False Map.empty = initial False Map.empty"
    by (rule new_manager_offline_empty) (simp add: quota_exceeded_def example_platform_def)
  then show ?thesis
    by (simp add: queueOperation_no_trigger initial_def new_operation_A
        localStorage_saveQueue quota_exceeded_def persisted_queue_def loadQueue_def getItem_def
        example_platform_def run_def)
qed

text \<open>
  The guard of \<^verbatim>\<open>syncQueue\<close> reads \<^verbatim>\<open>isOnline\<close> when a pass starts and not again: a pass
  in flight visits an operation that is enqueued while it awaits a delivery, also when
  the manager has gone offline in between. The calls of \<^verbatim>\<open>queueOperation\<close> themselves
  issue no service call then; the running pass does, once its awaited delivery settles.
\<close>

lemma offline_enqueue_joins_running_pass:
  "\<not> isOnline (run example_platform [Enqueue 1000 ''0.abc'' 1000 CREATE harvest_A, Offline] (online_with []))
   \<and> calls (run example_platform
        [Enqueue 2000 ''0.xyz'' 2000 CREATE harvest_B, Settled True]
        (run example_platform [Enqueue 1000 ''0.abc'' 1000 CREATE harvest_A, Offline] (online_with [])))
     = [CreateHarvest harvest_A, CreateHarvest harvest_B]
   \<and> \<not> isOnline (run example_platform
        [Enqueue 2000 ''0.xyz'' 2000 CREATE harvest_B, Settled True]
        (run example_platform [Enqueue 1000 ''0.abc'' 1000 CREATE harvest_A, Offline] (online_with [])))"
  unfolding pass_in_flight_example
  by (simp add: run_def queueOperation_no_trigger new_operation_B settle_def on_success_def
      sync_from.simps executeOperation_def op_B_def Let_def)

text \<open>
  C4. A call of \<^verbatim>\<open>syncQueue\<close> while the manager is offline, while a pass is in progress
  or while the queue is empty changes nothing: the queue, the storage, the trace of
  service calls and every other component of the state are as before.
\<close>

theorem syncQueue_noop:
  "\<not> isOnline s \<or> syncInProgress s \<or> queue s = [] \<Longrightarrow> syncQueue pf s = s"
  by (auto simp: syncQueue_def)

theorem syncQueue_noop_witness:
  "\<not> isOnline ((online_with [op_A])\<lparr>isOnline := False\<rparr>)
   \<and> syncQueue example_platform ((online_with [op_A])\<lparr>isOnline := False\<rparr>)
       = (online_with [op_A])\<lparr>isOnline := False\<rparr>
   \<and> syncInProgress ((online_with [op_A])\<lparr>syncInProgress := True, awaiting := Some (0, [])\<rparr>)
   \<and> syncQueue example_platform ((online_with [op_A])\<lparr>syncInProgress := True, awaiting := Some (0, [])\<rparr>)
       = (online_with [op_A])\<lparr>syncInProgress := True, awaiting := Some (0, [])\<rparr>
   \<and> queue (online_with []) = []
   \<and> syncQueue example_platform (online_with []) = online_with []"
  using syncQueue_noop[of "(online_with [op_A])\<lparr>isOnline := False\<rparr>" example_platform]
    syncQueue_noop[of "(online_with [op_A])\<lparr>syncInProgress := True, awaiting := Some (0, [])\<rparr>" example_platform]
    syncQueue_noop[of "online_with []" example_platform]
  by (simp add: online_with_def)

text \<open>
  C5. A pass issues the service calls of the queued operations in queue order, one
  attempt per operation, whatever the outcome \<open>d\<close> of each delivery: a failure or a
  success does not stop the attempts that follow. In particular, for two creations
  enqueued in the order A, B while offline, the pass started by the \<^verbatim>\<open>online\<close> event
  calls \<^verbatim>\<open>createHarvest\<close> with A's payload and then with B's payload.
\<close>

theorem fifo_attempts:
  "(isOnline s \<and> \<not> syncInProgress s \<and> queue s \<noteq> [] \<longrightarrow>
      calls (full_sync pf d s) = calls s @ concat (map issued (queue s))
      \<and> attempts_logged (console (full_sync pf d s))
          = attempts_logged (console s) @ map op_id (queue s))
   \<and> (\<not> isOnline s \<and> \<not> syncInProgress s \<and> awaiting s = None \<longrightarrow>
      calls (complete_pass pf d (step pf Online
               (run pf [Enqueue n1 r1 m1 CREATE a, Enqueue n2 r2 m2 CREATE b] s)))
        = calls s @ concat (map issued (queue s)) @ [CreateHarvest a, CreateHarvest b])"
proof (intro conjI impI)
  assume g: "isOnline s \<and> \<not> syncInProgress s \<and> queue s \<noteq> []"
  then show "calls (full_sync pf d s) = calls s @ concat (map issued (queue s))"
    by (simp add: calls_full_sync)
  from g show "attempts_logged (console (full_sync pf d s))
          = attempts_logged (console s) @ map op_id (queue s)"
    by (simp add: attempts_logged_full_sync)
next
  assume off: "\<not> isOnline s \<and> \<not> syncInProgress s \<and> awaiting s = None"
  let ?A = "new_operation n1 r1 m1 CREATE a" and ?B = "new_operation n2 r2 m2 CREATE b"
  let ?s2 = "run pf [Enqueue n1 r1 m1 CREATE a, Enqueue n2 r2 m2 CREATE b] s"
  have q2: "queue ?s2 = queue s @ [?A, ?B]" and c2: "calls ?s2 = calls s"
    and f2: "\<not> syncInProgress ?s2"
    using off by (simp_all add: run_def queueOperation_no_trigger)
  let ?t = "?s2\<lparr>console := console ?s2 @ [ConnectionRestored], isOnline := True\<rparr>"
  have "complete_pass pf d (step pf Online ?s2) = full_sync pf d ?t"
    by (simp add: on_online_def full_sync_def)
  moreover have "calls (full_sync pf d ?t) = calls ?t @ concat (map issued (queue ?t))"
    using q2 f2 by (intro calls_full_sync) simp_all
  ultimately show "calls (complete_pass pf d (step pf Online ?s2))
        = calls s @ concat (map issued (queue s)) @ [CreateHarvest a, CreateHarvest b]"
    using q2 c2 by (simp add: issued_def executeOperation_def new_operation_def)
qed

theorem fifo_attempts_witness:
  "isOnline (online_with [op_A, op_B]) \<and> \<not> syncInProgress (online_with [op_A, op_B])
   \<and> queue (online_with [op_A, op_B]) \<noteq> []
   \<and> calls (full_sync example_platform (\<lambda>i op. i \<noteq> 0) (online_with [op_A, op_B]))
       = [CreateHarvest harvest_A, CreateHarvest harvest_B]
   \<and> attempts_logged (console (full_sync example_platform (\<lambda>i op. i \<noteq> 0) (online_with [op_A, op_B])))
       = [''offline_1000_abc'', ''offline_2000_xyz'']
   \<and> \<not> isOnline (new_manager example_platform False Map.empty)
   \<and> \<not> syncInProgress (new_manager example_platform False Map.empty)
   \<and> awaiting (new_manager example_platform False Map.empty) = None
   \<and> calls (complete_pass example_platform (\<lambda>i op. i \<noteq> 0) (step example_platform Online
         (run example_platform
            [Enqueue 1000 ''0.abc'' 1000 CREATE harvest_A, Enqueue 2000 ''0.xyz'' 2000 CREATE harvest_B]
            (new_manager example_platform False Map.empty))))
       = [CreateHarvest harvest_A, CreateHarvest harvest_B]"
  using fifo_attempts[of "online_with [op_A, op_B]" example_platform "\<lambda>i op. i \<noteq> 0"]
    fifo_attempts[of "new_manager example_platform False Map.empty" example_platform "\<lambda>i op. i \<noteq> 0"
      1000 "''0.abc''" 1000 harvest_A 2000 "''0.xyz''" 2000 harvest_B]
  by (simp add: online_with_def op_A_def op_B_def issued_def executeOperation_def
      new_manager_def initial_def loadQueue_def getItem_def example_platform_def attempts_logged_def)

text \<open>
  C6 (as amended). \<^verbatim>\<open>queueOperation\<close> writes the queue after appending, and a pass writes
  it after its increments and removals, before it ends. Whenever storage works for the
  resulting queue (the write does not throw and the text parses back), the stored queue
  equals the in-memory queue at these points: after a call of \<^verbatim>\<open>queueOperation\<close> that
  starts no pass, at the end of a pass, at the end of the pass started by a call of
  \<^verbatim>\<open>queueOperation\<close>, and at the end of every pass in every sequence of events after
  the constructor. A manager restarted from that storage then holds the same queue: no
  operation is lost or duplicated.
\<close>

theorem write_through:
  "(\<not> (isOnline s \<and> \<not> syncInProgress s)
      \<and> storage_works pf (queue (snd (queueOperation pf now rnd now' ty dat s))) \<longrightarrow>
        persisted_queue pf (snd (queueOperation pf now rnd now' ty dat s))
          = queue (snd (queueOperation pf now rnd now' ty dat s))
      \<and> queue (new_manager pf False (localStorage (snd (queueOperation pf now rnd now' ty dat s))))
          = queue (snd (queueOperation pf now rnd now' ty dat s)))
   \<and> (isOnline s \<and> \<not> syncInProgress s \<and> queue s \<noteq> []
      \<and> storage_works pf (queue (full_sync pf d s)) \<longrightarrow>
        persisted_queue pf (full_sync pf d s) = queue (full_sync pf d s)
      \<and> queue (new_manager pf False (localStorage (full_sync pf d s))) = queue (full_sync pf d s))
   \<and> (isOnline s \<and> \<not> syncInProgress s
      \<and> storage_works pf (queue (complete_pass pf d (snd (queueOperation pf now rnd now' ty dat s)))) \<longrightarrow>
        persisted_queue pf (complete_pass pf d (snd (queueOperation pf now rnd now' ty dat s)))
          = queue (complete_pass pf d (snd (queueOperation pf now rnd now' ty dat s)))
      \<and> queue (new_manager pf False
                  (localStorage (complete_pass pf d (snd (queueOperation pf now rnd now' ty dat s)))))
          = queue (complete_pass pf d (snd (queueOperation pf now rnd now' ty dat s))))
   \<and> (pass_ends pf e (run pf es (new_manager pf onLine ls))
      \<and> storage_works pf (queue (step pf e (run pf es (new_manager pf onLine ls)))) \<longrightarrow>
        persisted_queue pf (step pf e (run pf es (new_manager pf onLine ls)))
          = queue (step pf e (run pf es (new_manager pf onLine ls)))
      \<and> queue (new_manager pf False (localStorage (step pf e (run pf es (new_manager pf onLine ls)))))
          = queue (step pf e (run pf es (new_manager pf onLine ls))))"
proof -
  let ?op = "new_operation now rnd now' ty dat"
  let ?r = "snd (queueOperation pf now rnd now' ty dat s)"
  let ?t = "(saveQueue pf (s\<lparr>queue := queue s @ [?op]\<rparr>))
          \<lparr>console := console (saveQueue pf (s\<lparr>queue := queue s @ [?op]\<rparr>)) @ [QueuedLine ty ?op]\<rparr>"
  have restart: "queue (new_manager pf False (localStorage u)) = persisted_queue pf u" for u
    by (simp add: new_manager_offline persisted_queue_def)
  have a: "persisted_queue pf ?r = queue ?r"
    if "\<not> (isOnline s \<and> \<not> syncInProgress s)" "storage_works pf (queue ?r)"
    using that persisted_queue_saveQueue[of pf "s\<lparr>queue := queue s @ [?op]\<rparr>"]
    by (simp add: queueOperation_no_trigger)
  have b: "persisted_queue pf (full_sync pf d u) = queue (full_sync pf d u)"
    if g: "isOnline u" "\<not> syncInProgress u" "queue u \<noteq> []"
      and w: "storage_works pf (queue (full_sync pf d u))" for u
    using w unfolding full_sync_closed[OF g] by (rule persisted_queue_finish)
  have c: "persisted_queue pf (complete_pass pf d ?r) = queue (complete_pass pf d ?r)"
    if on: "isOnline s \<and> \<not> syncInProgress s" and w: "storage_works pf (queue (complete_pass pf d ?r))"
  proof -
    have r: "complete_pass pf d ?r = full_sync pf d ?t"
      using on by (simp add: queueOperation_trigger full_sync_def)
    have g: "isOnline ?t" "\<not> syncInProgress ?t" "queue ?t \<noteq> []"
      using on by simp_all
    from b[OF g] w r show ?thesis by simp
  qed
  note d = pass_end_persisted[of pf e es onLine ls]
  from a b c d restart show ?thesis
    by simp
qed

theorem write_through_witness:
  "\<not> (isOnline (initial False Map.empty) \<and> \<not> syncInProgress (initial False Map.empty))
   \<and> storage_works example_platform [op_A]
   \<and> queue (snd (queueOperation example_platform 1000 ''0.abc'' 1000 CREATE harvest_A (initial False Map.empty)))
       = [op_A]
   \<and> queue (new_manager example_platform False (localStorage
        (snd (queueOperation example_platform 1000 ''0.abc'' 1000 CREATE harvest_A (initial False Map.empty)))))
       = [op_A]
   \<and> isOnline (online_with [op_A, op_B]) \<and> \<not> syncInProgress (online_with [op_A, op_B])
   \<and> queue (online_with [op_A, op_B]) \<noteq> []
   \<and> queue (full_sync example_platform (\<lambda>i x. i = 1) (online_with [op_A, op_B])) = [op_A\<lparr>retryCount := 1\<rparr>]
   \<and> storage_works example_platform [op_A\<lparr>retryCount := 1\<rparr>]
   \<and> queue (new_manager example_platform False (localStorage
        (full_sync example_platform (\<lambda>i x. i = 1) (online_with [op_A, op_B]))))
       = [op_A\<lparr>retryCount := 1\<rparr>]
   \<and> isOnline (online_with []) \<and> \<not> syncInProgress (online_with [])
   \<and> queue (complete_pass example_platform (\<lambda>i x. True)
        (snd (queueOperation example_platform 1000 ''0.abc'' 1000 CREATE harvest_A (online_with [])))) = []
   \<and> storage_works example_platform []
   \<and> queue (new_manager example_platform False (localStorage
        (complete_pass example_platform (\<lambda>i x. True)
          (snd (queueOperation example_platform 1000 ''0.abc'' 1000 CREATE harvest_A (online_with []))))))
       = []
   \<and> pass_ends example_platform (Settled True)
        (run example_platform [Enqueue 1000 ''0.abc'' 1000 CREATE harvest_A]
           (new_manager example_platform True Map.empty))
   \<and> queue (step example_platform (Settled True)
        (run example_platform [Enqueue 1000 ''0.abc'' 1000 CREATE harvest_A]
           (new_manager example_platform True Map.empty))) = []
   \<and> persisted_queue example_platform (step example_platform (Settled True)
        (run example_platform [Enqueue 1000 ''0.abc'' 1000 CREATE harvest_A]
           (new_manager example_platform True Map.empty))) = []"
proof -
  have pe: "pass_ends example_platform (Settled True)
        (run example_platform [Enqueue 1000 ''0.abc'' 1000 CREATE harvest_A]
           (new_manager example_platform True Map.empty))"
    unfolding pass_ends_def pass_finished_example
    by (simp add: pass_started_example)
  have qe: "queue (step example_platform (Settled True)
        (run example_platform [Enqueue 1000 ''0.abc'' 1000 CREATE harvest_A]
           (new_manager example_platform True Map.empty))) = []"
    unfolding pass_finished_example by simp
  have q1: "queue (snd (queueOperation example_platform 1000 ''0.abc'' 1000 CREATE harvest_A (initial False Map.empty)))
       = [op_A]"
    by (simp add: queueOperation_no_trigger initial_def new_operation_A)
  have g: "isOnline (online_with [op_A, op_B])" "\<not> syncInProgress (online_with [op_A, op_B])"
    "queue (online_with [op_A, op_B]) \<noteq> []"
    by (simp_all add: online_with_def)
  have q2: "queue (full_sync example_platform (\<lambda>i x. i = 1) (online_with [op_A, op_B])) = [op_A\<lparr>retryCount := 1\<rparr>]"
    by (subst queue_full_sync[OF g])
      (simp add: online_with_def attempted_def marked_ids_def marked_def
        attempt_def delivered_def executeOperation_def op_A_def op_B_def MAX_RETRIES_def)
  have g0: "isOnline (online_with [])" "\<not> syncInProgress (online_with [])"
    by (simp_all add: online_with_def)
  let ?t = "(saveQueue example_platform ((online_with [])\<lparr>queue := queue (online_with []) @ [op_A]\<rparr>))
          \<lparr>console := console (saveQueue example_platform ((online_with [])\<lparr>queue := queue (online_with []) @ [op_A]\<rparr>))
             @ [QueuedLine CREATE op_A]\<rparr>"
  have r: "complete_pass example_platform (\<lambda>i x. True)
        (snd (queueOperation example_platform 1000 ''0.abc'' 1000 CREATE harvest_A (online_with [])))
      = full_sync example_platform (\<lambda>i x. True) ?t"
    using g0 by (simp add: queueOperation_trigger full_sync_def new_operation_A)
  have gt: "isOnline ?t" "\<not> syncInProgress ?t" "queue ?t \<noteq> []"
    using g0 by simp_all
  have q3: "queue (complete_pass example_platform (\<lambda>i x. True)
        (snd (queueOperation example_platform 1000 ''0.abc'' 1000 CREATE harvest_A (online_with [])))) = []"
    unfolding r
    by (subst queue_full_sync[OF gt])
      (simp add: online_with_def attempted_def marked_ids_def marked_def
        attempt_def delivered_def executeOperation_def op_A_def)
  note w = example_storage_works
  show ?thesis
    using write_through[of "initial False Map.empty" example_platform 1000 "''0.abc''" 1000 CREATE harvest_A]
      write_through[of "online_with [op_A, op_B]" example_platform _ _ _ _ _ "\<lambda>i x. i = 1"]
      write_through[of "online_with []" example_platform 1000 "''0.abc''" 1000 CREATE harvest_A "\<lambda>i x. True"
        "Settled True" "[Enqueue 1000 ''0.abc'' 1000 CREATE harvest_A]" True Map.empty]
      q1 q2 q3 g g0 w pe qe
    by (simp add: initial_def)
qed

text \<open>
  C6 as stated fails where a write throws: with room for thirty characters the first
  operation is stored, the second is not, and a restart comes back with the first
  operation only.
\<close>

theorem enqueue_lost_on_restart:
  "queue (run small_quota
            (map enqueue_event [(1000, ''0.abc'', 1000, CREATE, harvest_A), (2000, ''0.xyz'', 2000, CREATE, harvest_B)])
            (new_manager small_quota False Map.empty)) = [op_A, op_B]
   \<and> queue (new_manager small_quota False (localStorage (run small_quota
            (map enqueue_event [(1000, ''0.abc'', 1000, CREATE, harvest_A), (2000, ''0.xyz'', 2000, CREATE, harvest_B)])
            (new_manager small_quota False Map.empty)))) = [op_A]"
proof -
  have "new_manager small_quota False Map.empty = initial False Map.empty"
    by (rule new_manager_offline_empty) (simp add: small_quota_def example_platform_def)
  then show ?thesis
    by (simp add: queueOperation_no_trigger initial_def new_operation_A new_operation_B
        localStorage_saveQueue small_quota_def new_manager_offline loadQueue_def getItem_def
        example_platform_def example_parse_def run_def)
qed





text \<open>
  C9 (as amended). Two generated identifiers are equal exactly when their calls read the
  same millisecond from the clock and random texts with the same characters at positions
  2 to 10. Along every sequence of events in which each generated identifier is new to
  the queue, a queue with distinct identifiers keeps distinct identifiers: no method
  changes the identifier of a queued operation, and a pass only removes operations.
\<close>

theorem unique_ids_preserved:
  "(generateId now rnd = generateId m r \<longleftrightarrow> now = m \<and> take 9 (drop 2 rnd) = take 9 (drop 2 r))
   \<and> (distinct (map op_id (queue s)) \<and> fresh_run pf es s
        \<longrightarrow> distinct (map op_id (queue (run pf es s))))"
proof -
  have "distinct (map op_id (queue s)) \<Longrightarrow> fresh_run pf es s
        \<Longrightarrow> distinct (map op_id (queue (run pf es s)))"
  proof (induction es arbitrary: s)
    case Nil
    then show ?case by (simp add: run_def)
  next
    case (Cons e es)
    from Cons.prems have "distinct (map op_id (queue (step pf e s)))"
      by (intro distinct_step) simp_all
    moreover from Cons.prems have "fresh_run pf es (step pf e s)"
      by simp
    ultimately have "distinct (map op_id (queue (run pf es (step pf e s))))"
      by (rule Cons.IH)
    then show ?case by (simp add: run_def)
  qed
  with generateId_eq_iff show ?thesis
    by blast
qed

theorem unique_ids_preserved_witness:
  "distinct (map op_id (queue (initial False Map.empty)))
   \<and> fresh_run example_platform
        [Enqueue 1000 ''0.abc'' 1000 CREATE harvest_A, Enqueue 2000 ''0.xyz'' 2000 CREATE harvest_B,
         Online, Settled False, Settled True]
        (initial False Map.empty)
   \<and> distinct (map op_id (queue (run example_platform
        [Enqueue 1000 ''0.abc'' 1000 CREATE harvest_A, Enqueue 2000 ''0.xyz'' 2000 CREATE harvest_B,
         Online, Settled False, Settled True]
        (initial False Map.empty))))
   \<and> generateId 1000 ''0.abc'' \<noteq> generateId 2000 ''0.xyz''"
proof -
  have f: "fresh_run example_platform
        [Enqueue 1000 ''0.abc'' 1000 CREATE harvest_A, Enqueue 2000 ''0.xyz'' 2000 CREATE harvest_B,
         Online, Settled False, Settled True]
        (initial False Map.empty)"
    by (simp add: queueOperation_no_trigger initial_def new_operation_A generateId_def decimal.simps op_A_def)
  have d: "distinct (map op_id (queue (initial False Map.empty)))"
    by (simp add: initial_def)
  from unique_ids_preserved[of 1000 "''0.abc''" 2000 "''0.xyz''" "initial False Map.empty" example_platform
      "[Enqueue 1000 ''0.abc'' 1000 CREATE harvest_A, Enqueue 2000 ''0.xyz'' 2000 CREATE harvest_B,
         Online, Settled False, Settled True]"] f d
  show ?thesis by simp
qed

text \<open>
  C9 as stated fails: nothing compares a new identifier with the queued ones. Two calls
  in the same millisecond whose random texts differ only after the eleventh character
  queue two operations with one identifier.
\<close>

theorem colliding_ids:
  "''0.4fzyo82mvyr'' \<noteq> ''0.4fzyo82mvzz''
   \<and> map op_id (queue (run example_platform
        [Enqueue 1000 ''0.4fzyo82mvyr'' 1000 CREATE harvest_A,
         Enqueue 1000 ''0.4fzyo82mvzz'' 1000 CREATE harvest_B]
        (new_manager example_platform False Map.empty)))
     = [''offline_1000_4fzyo82mv'', ''offline_1000_4fzyo82mv'']
   \<and> \<not> distinct (map op_id (queue (run example_platform
        [Enqueue 1000 ''0.4fzyo82mvyr'' 1000 CREATE harvest_A,
         Enqueue 1000 ''0.4fzyo82mvzz'' 1000 CREATE harvest_B]
        (new_manager example_platform False Map.empty))))"
proof -
  have "new_manager example_platform False Map.empty = initial False Map.empty"
    by (rule new_manager_offline_empty) (simp add: example_platform_def)
  then show ?thesis
    by (simp add: run_def queueOperation_no_trigger initial_def new_operation_def generateId_def
        decimal.simps)
qed



end
